theory Spec2Isabelle
  imports Main "HOL-Library.AList"
begin

section \<open>Data model of \<open>src/utils/TreeStore.ts\<close>\<close>

text \<open>
  An identifier is \<open>string | number\<close>.  Numeric identifiers are taken to be integers, as the
  data model of the specification does; on integers and strings the strict equality \<open>===\<close> of
  the source and the key equality of a JavaScript \<open>Map\<close> coincide, and both are HOL equality
  on \<open>ident\<close>: \<open>Num 1\<close> and \<open>Str ''1''\<close> are different keys.
\<close>

datatype ident = Num int | Str string

text \<open>
  \<open>TreeStoreItem\<close>: the three named fields and the open bag of further fields.  Items are
  compared by value; the store itself never writes into an item, so the object identity of the
  source is not observable through the operations modelled here.
\<close>

record TreeStoreItem =
  item_id :: ident
  parent :: "ident option"
  label :: string
  extra :: "(string \<times> string) list"

text \<open>
  A JavaScript \<open>Map\<close> iterates in insertion order, \<open>set\<close> on a present key keeps the key's
  position, and \<open>delete\<close> removes the key.  It is modelled as an association list:
  \<open>map_of\<close> is \<open>get\<close>, \<open>AList.update\<close> is \<open>set\<close>, \<open>AList.delete\<close> is \<open>delete\<close>.
\<close>

type_synonym itemIndex = "(ident \<times> TreeStoreItem) list"
type_synonym childIndex = "(ident \<times> TreeStoreItem list) list"

record TreeStore =
  items :: itemIndex
  childrenMap :: childIndex

text \<open>The four \<open>throw new Error(...)\<close> sites, named as the specification names them.\<close>

datatype error =
    ItemAlreadyExists ident
  | ParentNotFound ident
  | CircularReference
  | ItemNotFound ident

text \<open>
  A mutating call that can throw returns \<open>Inl (e, s)\<close> when it throws \<open>e\<close>, with \<open>s\<close> the
  state of the two indices at the moment of the throw, and \<open>Inr s\<close> when it returns normally.
  \<open>None\<close> stands for a call whose loop never meets its exit test.  Such a call gives no
  result and none of the four errors above: both loops of the source append to an array at
  every round, so an engine can end the call only abnormally, when that array outgrows what
  the engine allows.  The abnormal end is not told apart from running on; all that is read
  off \<open>None\<close> is that the call has none of the outcomes \<open>Some\<close> stands for.
\<close>

type_synonym outcome = "(error \<times> TreeStore) + TreeStore"

section \<open>Operations\<close>

definition has :: "('k \<times> 'v) list \<Rightarrow> 'k \<Rightarrow> bool" where
  "has m k = (k \<in> set (map fst m))"

text \<open>\<open>this.childrenMap.get(id) || []\<close> (an array, even an empty one, is truthy).\<close>

definition childrenOf :: "childIndex \<Rightarrow> ident \<Rightarrow> TreeStoreItem list" where
  "childrenOf cm k = (case map_of cm k of None \<Rightarrow> [] | Some cs \<Rightarrow> cs)"

text \<open>
  \<open>if (!childrenMap.has(p)) childrenMap.set(p, []); childrenMap.get(p)!.push(item)\<close>:
  a new key goes to the end of the map, a present key keeps its place; the item goes to the
  end of the key's array.
\<close>

definition pushChild :: "childIndex \<Rightarrow> ident \<Rightarrow> TreeStoreItem \<Rightarrow> childIndex" where
  "pushChild cm parentId item = AList.update parentId (childrenOf cm parentId @ [item]) cm"

definition initialize :: "TreeStore \<Rightarrow> TreeStoreItem list \<Rightarrow> TreeStore" where
  "initialize s xs =
     \<lparr> items = fold (\<lambda>item m. AList.update (item_id item) item m) xs (items s),
       childrenMap =
         fold (\<lambda>item cm. case parent item of None \<Rightarrow> cm
                           | Some parentId \<Rightarrow> pushChild cm parentId item) xs [] \<rparr>"

definition constructor :: "TreeStoreItem list \<Rightarrow> TreeStore" where
  "constructor xs = initialize \<lparr> items = [], childrenMap = [] \<rparr> xs"

definition getAll :: "TreeStore \<Rightarrow> TreeStoreItem list" where
  "getAll s = map snd (items s)"

definition getItem :: "TreeStore \<Rightarrow> ident \<Rightarrow> TreeStoreItem option" where
  "getItem s k = map_of (items s) k"

definition getChildren :: "TreeStore \<Rightarrow> ident \<Rightarrow> TreeStoreItem list" where
  "getChildren s k = childrenOf (childrenMap s) k"

text \<open>
  The loop of \<open>getAllChildren\<close>: \<open>queue.shift()\<close> takes the head, \<open>items.push(current)\<close>
  extends the result, \<open>queue.push(...children)\<close> extends the queue at its end.  There is no
  visited set, so the queue need not run empty.
\<close>

partial_function (option) bfsLoop ::
  "childIndex \<Rightarrow> TreeStoreItem list \<Rightarrow> TreeStoreItem list \<Rightarrow> TreeStoreItem list option" where
  "bfsLoop cm queue acc =
     (case queue of
        [] \<Rightarrow> Some acc
      | current # rest \<Rightarrow> bfsLoop cm (rest @ childrenOf cm (item_id current)) (acc @ [current]))"

definition getAllChildren :: "TreeStore \<Rightarrow> ident \<Rightarrow> TreeStoreItem list option" where
  "getAllChildren s k = bfsLoop (childrenMap s) (getChildren s k) []"

text \<open>
  The loop of \<open>getAllParents\<close>: it ends at a \<open>null\<close> parent or at a parent that is not in the
  primary index, and otherwise goes on with the parent.
\<close>

partial_function (option) parentsLoop ::
  "TreeStore \<Rightarrow> TreeStoreItem \<Rightarrow> TreeStoreItem list \<Rightarrow> TreeStoreItem list option" where
  "parentsLoop s current parents =
     (case parent current of
        None \<Rightarrow> Some parents
      | Some p \<Rightarrow>
          (case getItem s p of
             None \<Rightarrow> Some parents
           | Some par \<Rightarrow> parentsLoop s par (parents @ [par])))"

definition getAllParents :: "TreeStore \<Rightarrow> ident \<Rightarrow> TreeStoreItem list option" where
  "getAllParents s k =
     (case getItem s k of
        None \<Rightarrow> Some []
      | Some current \<Rightarrow> parentsLoop s current [current])"

definition wouldCreateCircularReference :: "TreeStore \<Rightarrow> ident \<Rightarrow> ident \<Rightarrow> bool option" where
  "wouldCreateCircularReference s itemId newParentId =
     (if itemId = newParentId then Some True
      else (case getAllChildren s itemId of
              None \<Rightarrow> None
            | Some allChildren \<Rightarrow>
                Some (list_ex (\<lambda>child. item_id child = newParentId) allChildren)))"

text \<open>
  \<open>addItem\<close>.  The primary index receives the copy \<open>{ ...item }\<close>, the child list the item
  itself; both are the same value.
\<close>

definition addItem :: "TreeStore \<Rightarrow> TreeStoreItem \<Rightarrow> outcome option" where
  "addItem s item =
     (if has (items s) (item_id item) then Some (Inl (ItemAlreadyExists (item_id item), s))
      else (case parent item of
              None \<Rightarrow>
                Some (Inr (s\<lparr> items := AList.update (item_id item) item (items s) \<rparr>))
            | Some parentId \<Rightarrow>
                if \<not> has (items s) parentId then Some (Inl (ParentNotFound parentId, s))
                else (case wouldCreateCircularReference s (item_id item) parentId of
                        None \<Rightarrow> None
                      | Some True \<Rightarrow> Some (Inl (CircularReference, s))
                      | Some False \<Rightarrow>
                          Some (Inr \<lparr> items = AList.update (item_id item) item (items s),
                                      childrenMap = pushChild (childrenMap s) parentId item \<rparr>))))"

text \<open>\<open>findIndex\<close> gives the first position whose element satisfies the test, or \<open>-1\<close> (\<open>None\<close>).\<close>

fun findIndex :: "('a \<Rightarrow> bool) \<Rightarrow> 'a list \<Rightarrow> nat option" where
  "findIndex P [] = None"
| "findIndex P (x # xs) =
     (if P x then Some 0 else (case findIndex P xs of None \<Rightarrow> None | Some i \<Rightarrow> Some (Suc i)))"

text \<open>\<open>arr.splice(index, 1)\<close> for an index inside the array.\<close>

definition splice1 :: "nat \<Rightarrow> 'a list \<Rightarrow> 'a list" where
  "splice1 i xs = take i xs @ drop (Suc i) xs"

text \<open>
  The block shared by \<open>removeItem\<close> and \<open>updateItem\<close>: look the parent's array up, find the
  first child with the identifier, and splice it out when there is one.
\<close>

definition unlinkChild :: "childIndex \<Rightarrow> ident \<Rightarrow> ident \<Rightarrow> childIndex" where
  "unlinkChild cm parentId k =
     (case map_of cm parentId of
        None \<Rightarrow> cm
      | Some parentChildren \<Rightarrow>
          (case findIndex (\<lambda>child. item_id child = k) parentChildren of
             None \<Rightarrow> cm
           | Some i \<Rightarrow> AList.update parentId (splice1 i parentChildren) cm))"

definition deleteAll :: "TreeStoreItem list \<Rightarrow> TreeStore \<Rightarrow> TreeStore" where
  "deleteAll allChildren s =
     fold (\<lambda>child t. \<lparr> items = AList.delete (item_id child) (items t),
                       childrenMap = AList.delete (item_id child) (childrenMap t) \<rparr>)
          allChildren s"

text \<open>
  \<open>removeItem\<close> has no \<open>throw\<close> of its own: it returns the new state, or it has no outcome
  when the loop of \<open>getAllChildren\<close> has none.
\<close>

definition removeItem :: "TreeStore \<Rightarrow> ident \<Rightarrow> TreeStore option" where
  "removeItem s k =
     (case getItem s k of
        None \<Rightarrow> Some s
      | Some item \<Rightarrow>
          (case getAllChildren s k of
             None \<Rightarrow> None
           | Some allChildren \<Rightarrow>
               (let t = deleteAll allChildren s;
                    its = AList.delete k (items t);
                    cm = AList.delete k (childrenMap t)
                in Some \<lparr> items = its,
                          childrenMap = (case parent item of
                                           None \<Rightarrow> cm
                                         | Some p \<Rightarrow> unlinkChild cm p k) \<rparr>)))"

definition relink :: "childIndex \<Rightarrow> TreeStoreItem \<Rightarrow> TreeStoreItem \<Rightarrow> childIndex" where
  "relink cm existingItem updatedItem =
     (if parent existingItem \<noteq> parent updatedItem then
        (let cm1 = (case parent existingItem of
                      None \<Rightarrow> cm
                    | Some oldParent \<Rightarrow> unlinkChild cm oldParent (item_id updatedItem))
         in (case parent updatedItem of
               None \<Rightarrow> cm1
             | Some newParent \<Rightarrow> pushChild cm1 newParent updatedItem))
      else cm)"

definition updateItem :: "TreeStore \<Rightarrow> TreeStoreItem \<Rightarrow> outcome option" where
  "updateItem s updatedItem =
     (case getItem s (item_id updatedItem) of
        None \<Rightarrow> Some (Inl (ItemNotFound (item_id updatedItem), s))
      | Some existingItem \<Rightarrow>
          (case parent updatedItem of
             None \<Rightarrow>
               Some (Inr \<lparr> items = AList.update (item_id updatedItem) updatedItem (items s),
                           childrenMap = relink (childrenMap s) existingItem updatedItem \<rparr>)
           | Some newParent \<Rightarrow>
               if \<not> has (items s) newParent then Some (Inl (ParentNotFound newParent, s))
               else (case wouldCreateCircularReference s (item_id updatedItem) newParent of
                       None \<Rightarrow> None
                     | Some True \<Rightarrow> Some (Inl (CircularReference, s))
                     | Some False \<Rightarrow>
                         Some (Inr \<lparr> items = AList.update (item_id updatedItem) updatedItem (items s),
                                     childrenMap =
                                       relink (childrenMap s) existingItem updatedItem \<rparr>))))"

section \<open>The fixture of the test suite\<close>

text \<open>
  \<open>mockItems\<close> of \<open>TreeStore.spec.ts\<close>; the labels are written in ASCII, the store never
  reads them.
\<close>

definition mk :: "ident \<Rightarrow> ident option \<Rightarrow> string \<Rightarrow> TreeStoreItem" where
  "mk k p l = \<lparr> item_id = k, parent = p, label = l, extra = [] \<rparr>"

definition A :: ident where
  "A = Str ''91064cee''"

definition mockItems :: "TreeStoreItem list" where
  "mockItems =
     [ mk (Num 1) None ''Item 1'',
       mk A (Some (Num 1)) ''Item 2'',
       mk (Num 3) (Some (Num 1)) ''Item 3'',
       mk (Num 4) (Some A) ''Item 4'',
       mk (Num 5) (Some A) ''Item 5'',
       mk (Num 6) (Some A) ''Item 6'',
       mk (Num 7) (Some (Num 4)) ''Item 7'',
       mk (Num 8) (Some (Num 4)) ''Item 8'' ]"

definition fixture :: TreeStore where
  "fixture = constructor mockItems"


text \<open>The height of each fixture item above the leaves: a child is lower than its parent.\<close>

definition fixtureRank :: "ident \<Rightarrow> nat" where
  "fixtureRank k = (if k = Num 1 then 3 else if k = A then 2 else if k = Num 4 then 1 else 0)"

section \<open>Notions of the specification\<close>

text \<open>
  The parent links of the primary index, from a key to the parent of the record stored under
  it, and the links of the secondary index, from the identifier of a listed child to the key
  of its list.
\<close>

definition parentRel :: "TreeStore \<Rightarrow> (ident \<times> ident) set" where
  "parentRel s = {(k, p). \<exists>x. getItem s k = Some x \<and> parent x = Some p}"

definition childRel :: "TreeStore \<Rightarrow> (ident \<times> ident) set" where
  "childRel s = {(c, p). c \<in> item_id ` set (getChildren s p)}"

text \<open>
  The four invariants of the data model.
  \<^enum> The identifiers of the stored items are unique: neither index has a key twice, and
    each record is stored under its own identifier.
  \<^enum> Every non-null parent is the identifier of a stored item.
  \<^enum> No item is its own ancestor: no chain of parent links comes back to where it started.
  \<^enum> The secondary index is the inverse of the parent field: every entry of the child list
    of \<open>p\<close> is a stored record whose parent is \<open>p\<close>, and every stored record with parent \<open>p\<close>
    is an entry of the child list of \<open>p\<close>.
\<close>

definition uniqueIds :: "TreeStore \<Rightarrow> bool" where
  "uniqueIds s =
     (distinct (map fst (items s)) \<and> distinct (map fst (childrenMap s)) \<and>
      (\<forall>(k, x) \<in> set (items s). item_id x = k))"

definition parentsExist :: "TreeStore \<Rightarrow> bool" where
  "parentsExist s =
     (\<forall>(k, x) \<in> set (items s). case parent x of None \<Rightarrow> True | Some p \<Rightarrow> has (items s) p)"

definition acyclicParents :: "TreeStore \<Rightarrow> bool" where
  "acyclicParents s = acyclic (parentRel s)"

definition indexInverse :: "TreeStore \<Rightarrow> bool" where
  "indexInverse s =
     ((\<forall>(p, cs) \<in> set (childrenMap s). \<forall>c \<in> set cs.
          getItem s (item_id c) = Some c \<and> parent c = Some p) \<and>
      (\<forall>(k, x) \<in> set (items s).
          case parent x of None \<Rightarrow> True | Some p \<Rightarrow> x \<in> set (getChildren s p)))"

definition invariants :: "TreeStore \<Rightarrow> bool" where
  "invariants s = (uniqueIds s \<and> parentsExist s \<and> acyclicParents s \<and> indexInverse s)"

text \<open>No child list names an identifier twice.\<close>

definition childListsDistinct :: "TreeStore \<Rightarrow> bool" where
  "childListsDistinct s = (\<forall>(p, cs) \<in> set (childrenMap s). distinct (map item_id cs))"

text \<open>
  The same conditions read through the lookups \<open>getItem\<close> and \<open>getChildren\<close>: the four
  invariants together with child lists that name no identifier twice.
\<close>

definition lookupInvariants :: "TreeStore \<Rightarrow> bool" where
  "lookupInvariants s =
     (distinct (map fst (items s)) \<and> distinct (map fst (childrenMap s)) \<and>
      (\<forall>k x. getItem s k = Some x \<longrightarrow> item_id x = k) \<and>
      (\<forall>k x p. getItem s k = Some x \<and> parent x = Some p \<longrightarrow> getItem s p \<noteq> None) \<and>
      acyclic (parentRel s) \<and>
      (\<forall>p c. c \<in> set (getChildren s p) \<longrightarrow> getItem s (item_id c) = Some c \<and> parent c = Some p) \<and>
      (\<forall>k x p. getItem s k = Some x \<and> parent x = Some p \<longrightarrow> x \<in> set (getChildren s p)) \<and>
      (\<forall>p. distinct (map item_id (getChildren s p))))"

text \<open>A child list without its first entry for an identifier; the other entries keep their order.\<close>

fun withoutFirst :: "ident \<Rightarrow> TreeStoreItem list \<Rightarrow> TreeStoreItem list" where
  "withoutFirst k [] = []"
| "withoutFirst k (c # cs) = (if item_id c = k then cs else c # withoutFirst k cs)"

text \<open>
  Level order.  The next generation of a list of items is the concatenation of their child
  lists, in the order of the items; \<open>generation cm q n\<close> is the \<open>n\<close>-th generation after
  \<open>q\<close>, and \<open>levels cm q n\<close> the first \<open>n\<close> generations, one after the other.
\<close>

definition nextGen :: "childIndex \<Rightarrow> TreeStoreItem list \<Rightarrow> TreeStoreItem list" where
  "nextGen cm q = concat (map (\<lambda>x. childrenOf cm (item_id x)) q)"

primrec generation :: "childIndex \<Rightarrow> TreeStoreItem list \<Rightarrow> nat \<Rightarrow> TreeStoreItem list" where
  "generation cm q 0 = q"
| "generation cm q (Suc n) = nextGen cm (generation cm q n)"

definition levels :: "childIndex \<Rightarrow> TreeStoreItem list \<Rightarrow> nat \<Rightarrow> TreeStoreItem list" where
  "levels cm q n = concat (map (generation cm q) [0..<n])"

text \<open>
  An ancestor chain: each item is followed by the stored record of its parent, and the last
  item has a null parent or a parent that is not stored.
\<close>

fun ancestorChain :: "TreeStore \<Rightarrow> TreeStoreItem list \<Rightarrow> bool" where
  "ancestorChain s [] = False"
| "ancestorChain s [x] = (case parent x of None \<Rightarrow> True | Some p \<Rightarrow> getItem s p = None)"
| "ancestorChain s (x # y # zs) =
     ((case parent x of None \<Rightarrow> False | Some p \<Rightarrow> getItem s p = Some y) \<and>
      ancestorChain s (y # zs))"

text \<open>
  Sequences of mutating calls.  \<open>perform\<close> gives the state after a call that returned
  normally, and nothing for a call that threw or had no outcome; \<open>performAll\<close> runs a
  sequence of calls that all returned normally.
\<close>

datatype call = AddItem TreeStoreItem | UpdateItem TreeStoreItem | RemoveItem ident

fun perform :: "TreeStore \<Rightarrow> call \<Rightarrow> TreeStore option" where
  "perform s (AddItem x) = (case addItem s x of Some (Inr s') \<Rightarrow> Some s' | _ \<Rightarrow> None)"
| "perform s (UpdateItem x) = (case updateItem s x of Some (Inr s') \<Rightarrow> Some s' | _ \<Rightarrow> None)"
| "perform s (RemoveItem k) = removeItem s k"

fun performAll :: "TreeStore \<Rightarrow> call list \<Rightarrow> TreeStore option" where
  "performAll s [] = Some s"
| "performAll s (c # cs) = (case perform s c of None \<Rightarrow> None | Some s' \<Rightarrow> performAll s' cs)"

text \<open>
  Three calls on the fixture, one of each kind, and the store they leave: 9 is added under 3,
  3 is moved from 1 to A, and the leaf 5 is removed.
\<close>

definition sampleCalls :: "call list" where
  "sampleCalls =
     [ AddItem (mk (Num 9) (Some (Num 3)) ''Item 9''),
       UpdateItem (mk (Num 3) (Some A) ''Item 3''),
       RemoveItem (Num 5) ]"

definition afterSampleCalls :: TreeStore where
  "afterSampleCalls =
     \<lparr> items =
         [ (Num 1, mk (Num 1) None ''Item 1''),
           (A, mk A (Some (Num 1)) ''Item 2''),
           (Num 3, mk (Num 3) (Some A) ''Item 3''),
           (Num 4, mk (Num 4) (Some A) ''Item 4''),
           (Num 6, mk (Num 6) (Some A) ''Item 6''),
           (Num 7, mk (Num 7) (Some (Num 4)) ''Item 7''),
           (Num 8, mk (Num 8) (Some (Num 4)) ''Item 8''),
           (Num 9, mk (Num 9) (Some (Num 3)) ''Item 9'') ],
       childrenMap =
         [ (Num 1, [mk A (Some (Num 1)) ''Item 2'']),
           (A, [mk (Num 4) (Some A) ''Item 4'', mk (Num 6) (Some A) ''Item 6'',
                mk (Num 3) (Some A) ''Item 3'']),
           (Num 4, [mk (Num 7) (Some (Num 4)) ''Item 7'', mk (Num 8) (Some (Num 4)) ''Item 8'']),
           (Num 3, [mk (Num 9) (Some (Num 3)) ''Item 9'']) ] \<rparr>"

section \<open>Stores built from unchecked input\<close>

text \<open>
  The constructor checks nothing, so these are stores a caller can build.
  \<open>selfLoopStore\<close>: one item that names itself as its parent.
  \<open>shadowedLoopStore\<close>: the same item, then a root with the same identifier; the primary
  index keeps the root, the child list of 1 keeps the first entry.
  \<open>danglingLoopStore\<close>: two entries for 2, the first under the absent 9, the second under 2.
  \<open>twiceListedStore\<close>: a root and the same child given twice.
  \<open>repeatedInput\<close>: two entries for 2 under 1 and two entries for 3 under 2.
\<close>

definition selfLoopStore :: TreeStore where
  "selfLoopStore = constructor [mk (Num 1) (Some (Num 1)) ''a'']"

definition shadowedLoopStore :: TreeStore where
  "shadowedLoopStore = constructor [mk (Num 1) (Some (Num 1)) ''a'', mk (Num 1) None ''b'']"

definition danglingLoopStore :: TreeStore where
  "danglingLoopStore =
     constructor [mk (Num 2) (Some (Num 9)) ''a'', mk (Num 2) (Some (Num 2)) ''b'']"

definition twiceListedStore :: TreeStore where
  "twiceListedStore =
     constructor [mk (Num 1) None ''r'', mk (Num 2) (Some (Num 1)) ''c'',
                  mk (Num 2) (Some (Num 1)) ''c'']"

definition repeatedInput :: "TreeStoreItem list" where
  "repeatedInput =
     [ mk (Num 2) (Some (Num 1)) ''a'', mk (Num 2) (Some (Num 1)) ''b'',
       mk (Num 3) (Some (Num 2)) ''c'', mk (Num 3) (Some (Num 2)) ''d'' ]"

declare bfsLoop.simps [code] parentsLoop.simps [code]

section \<open>Evaluation rules\<close>

lemma bfsLoop_Nil: "bfsLoop cm [] acc = Some acc"
  by (simp add: bfsLoop.simps)

lemma bfsLoop_Cons:
  "bfsLoop cm (x # q) acc = bfsLoop cm (q @ childrenOf cm (item_id x)) (acc @ [x])"
  by (subst bfsLoop.simps) simp

lemma fixture_unfold:
  "fixture =
     \<lparr> items =
         [ (Num 1, mk (Num 1) None ''Item 1''),
           (A, mk A (Some (Num 1)) ''Item 2''),
           (Num 3, mk (Num 3) (Some (Num 1)) ''Item 3''),
           (Num 4, mk (Num 4) (Some A) ''Item 4''),
           (Num 5, mk (Num 5) (Some A) ''Item 5''),
           (Num 6, mk (Num 6) (Some A) ''Item 6''),
           (Num 7, mk (Num 7) (Some (Num 4)) ''Item 7''),
           (Num 8, mk (Num 8) (Some (Num 4)) ''Item 8'') ],
       childrenMap =
         [ (Num 1, [mk A (Some (Num 1)) ''Item 2'', mk (Num 3) (Some (Num 1)) ''Item 3'']),
           (A, [mk (Num 4) (Some A) ''Item 4'', mk (Num 5) (Some A) ''Item 5'',
                mk (Num 6) (Some A) ''Item 6'']),
           (Num 4, [mk (Num 7) (Some (Num 4)) ''Item 7'', mk (Num 8) (Some (Num 4)) ''Item 8'']) ] \<rparr>"
  by (simp add: fixture_def constructor_def initialize_def mockItems_def mk_def A_def
      pushChild_def childrenOf_def)

lemmas op_defs = getAll_def getItem_def getChildren_def childrenOf_def has_def pushChild_def
  getAllChildren_def getAllParents_def wouldCreateCircularReference_def addItem_def
  removeItem_def updateItem_def relink_def unlinkChild_def deleteAll_def splice1_def

lemmas eval_simps = op_defs fixture_unfold mk_def A_def bfsLoop_Nil bfsLoop_Cons

section \<open>The queue loop, generation by generation\<close>

lemma nextGen_Nil [simp]: "nextGen cm [] = []"
  by (simp add: nextGen_def)

lemma nextGen_Cons: "nextGen cm (x # q) = childrenOf cm (item_id x) @ nextGen cm q"
  by (simp add: nextGen_def)

lemma nextGen_append: "nextGen cm (q @ r) = nextGen cm q @ nextGen cm r"
  by (simp add: nextGen_def)

lemma generation_Nil [simp]: "generation cm [] n = []"
  by (induction n) simp_all

lemma generation_append: "generation cm (q @ r) n = generation cm q n @ generation cm r n"
  by (induction n) (simp_all add: nextGen_append)

lemma generation_shift: "generation cm q (Suc n) = generation cm (nextGen cm q) n"
  by (induction n) simp_all

lemma generation_add: "generation cm q (m + n) = generation cm (generation cm q m) n"
  by (induction n) simp_all

lemma generation_empty_mono: "generation cm q n = [] \<Longrightarrow> n \<le> m \<Longrightarrow> generation cm q m = []"
proof -
  assume e: "generation cm q n = []" and le: "n \<le> m"
  have "generation cm q (n + (m - n)) = generation cm (generation cm q n) (m - n)"
    by (rule generation_add)
  with e le show ?thesis by simp
qed

lemma levels_0 [simp]: "levels cm q 0 = []"
  by (simp add: levels_def)

lemma levels_Suc: "levels cm q (Suc n) = levels cm q n @ generation cm q n"
  by (simp add: levels_def)

lemma levels_Suc_shift: "levels cm q (Suc n) = q @ levels cm (nextGen cm q) n"
proof (induction n)
  case 0
  show ?case by (simp add: levels_def)
next
  case (Suc n)
  have "levels cm q (Suc (Suc n)) = levels cm q (Suc n) @ generation cm q (Suc n)"
    by (rule levels_Suc)
  also have "\<dots> = q @ levels cm (nextGen cm q) n @ generation cm (nextGen cm q) n"
    by (simp only: Suc generation_shift append_assoc)
  also have "\<dots> = q @ levels cm (nextGen cm q) (Suc n)"
    by (simp only: levels_Suc)
  finally show ?case .
qed

lemma bfsLoop_append: "bfsLoop cm (q @ r) acc = bfsLoop cm (r @ nextGen cm q) (acc @ q)"
proof (induction q arbitrary: r acc)
  case Nil
  show ?case by simp
next
  case (Cons x q)
  have "bfsLoop cm ((x # q) @ r) acc = bfsLoop cm (q @ (r @ childrenOf cm (item_id x))) (acc @ [x])"
    by (simp add: bfsLoop_Cons)
  also have "\<dots> = bfsLoop cm ((r @ childrenOf cm (item_id x)) @ nextGen cm q) ((acc @ [x]) @ q)"
    by (rule Cons.IH)
  finally show ?case by (simp add: nextGen_Cons)
qed

lemma bfsLoop_generation: "bfsLoop cm q acc = bfsLoop cm (generation cm q n) (acc @ levels cm q n)"
proof (induction n)
  case 0
  show ?case by simp
next
  case (Suc n)
  have "bfsLoop cm (generation cm q n) (acc @ levels cm q n)
        = bfsLoop cm (generation cm q n @ []) (acc @ levels cm q n)" by simp
  also have "\<dots> = bfsLoop cm ([] @ nextGen cm (generation cm q n)) ((acc @ levels cm q n) @ generation cm q n)"
    by (rule bfsLoop_append)
  finally show ?case using Suc by (simp add: levels_Suc)
qed

lemma bfsLoop_if_generation_empty:
  "generation cm q n = [] \<Longrightarrow> bfsLoop cm q acc = Some (acc @ levels cm q n)"
  using bfsLoop_generation [of cm q acc n] by (simp add: bfsLoop_Nil)

lemma bfsLoop_Some_generation:
  assumes "bfsLoop cm q acc = Some res"
  shows "\<exists>n. generation cm q n = []"
proof (rule bfsLoop.raw_induct [where P = "\<lambda>cm q acc res. \<exists>n. generation cm q n = []", OF _ assms])
  fix bfs cm q acc res
  assume IH: "\<And>cm q acc res. bfs cm q acc = Some res \<Longrightarrow> \<exists>n. generation cm q n = []"
    and body: "(case q of [] \<Rightarrow> Some acc
                | current # rest \<Rightarrow> bfs cm (rest @ childrenOf cm (item_id current)) (acc @ [current]))
               = Some res"
  show "\<exists>n. generation cm q n = []"
  proof (cases q)
    case Nil
    then have "generation cm q 0 = []" by simp
    then show ?thesis by blast
  next
    case (Cons x rest)
    with body have "bfs cm (rest @ childrenOf cm (item_id x)) (acc @ [x]) = Some res" by simp
    from IH [OF this] obtain n where n: "generation cm (rest @ childrenOf cm (item_id x)) n = []"
      by blast
    then have r: "generation cm rest n = []" and c: "generation cm (childrenOf cm (item_id x)) n = []"
      by (simp_all add: generation_append)
    from r have "generation cm rest (Suc n) = []" by (rule generation_empty_mono) simp
    then have "generation cm (nextGen cm rest) n = []" by (simp only: generation_shift)
    with c have "generation cm (x # rest) (Suc n) = []"
      by (simp only: generation_shift nextGen_Cons generation_append) simp
    with Cons show ?thesis by blast
  qed
qed

lemma bfsLoop_Some_iff:
  "bfsLoop cm q acc = Some res \<longleftrightarrow> (\<exists>n. generation cm q n = [] \<and> res = acc @ levels cm q n)"
proof
  assume s: "bfsLoop cm q acc = Some res"
  then obtain n where n: "generation cm q n = []" using bfsLoop_Some_generation by blast
  from bfsLoop_if_generation_empty [OF n, of acc] s have "res = acc @ levels cm q n" by simp
  with n show "\<exists>n. generation cm q n = [] \<and> res = acc @ levels cm q n" by blast
next
  assume "\<exists>n. generation cm q n = [] \<and> res = acc @ levels cm q n"
  then show "bfsLoop cm q acc = Some res" using bfsLoop_if_generation_empty by blast
qed

lemma bfsLoop_None_iff: "bfsLoop cm q acc = None \<longleftrightarrow> (\<forall>n. generation cm q n \<noteq> [])"
proof -
  have "bfsLoop cm q acc = None \<longleftrightarrow> \<not> (\<exists>res. bfsLoop cm q acc = Some res)" by auto
  also have "\<dots> \<longleftrightarrow> (\<forall>n. generation cm q n \<noteq> [])" by (simp add: bfsLoop_Some_iff)
  finally show ?thesis .
qed

section \<open>Failed calls\<close>

text \<open>
  Claim C3.  When \<open>addItem\<close> or \<open>updateItem\<close> throws, whichever of the four errors it is, the
  two indices are the ones the call started from: every \<open>throw\<close> precedes the first write, so
  \<open>getAll\<close>, \<open>getItem\<close> and \<open>getChildren\<close> answer as before the call.
\<close>

theorem failed_call_leaves_indices:
  "(addItem s item = Some (Inl (e, s')) \<longrightarrow>
      s' = s \<and> getAll s' = getAll s \<and>
      (\<forall>k. getItem s' k = getItem s k \<and> getChildren s' k = getChildren s k)) \<and>
   (updateItem s item = Some (Inl (e, s')) \<longrightarrow>
      s' = s \<and> getAll s' = getAll s \<and>
      (\<forall>k. getItem s' k = getItem s k \<and> getChildren s' k = getChildren s k))"
  by (auto simp: addItem_def updateItem_def split: option.splits if_splits bool.splits)

theorem failed_call_witness:
  "addItem fixture (mk (Num 1) None ''Dup'') = Some (Inl (ItemAlreadyExists (Num 1), fixture)) \<and>
   updateItem fixture (mk (Num 1) (Some (Num 7)) ''Item 1'') = Some (Inl (CircularReference, fixture)) \<and>
   getAll fixture = mockItems"
  using failed_call_leaves_indices [of fixture "mk (Num 1) None ''Dup''" "ItemAlreadyExists (Num 1)" fixture]
  using failed_call_leaves_indices [of fixture "mk (Num 1) (Some (Num 7)) ''Item 1''" "CircularReference" fixture]
  by (simp add: eval_simps mockItems_def)

section \<open>The two maps\<close>

lemma has_map_of: "has m k \<longleftrightarrow> map_of m k \<noteq> None"
  by (simp add: has_def map_of_eq_None_iff)

lemma update_absent: "\<not> has m k \<Longrightarrow> AList.update k v m = m @ [(k, v)]"
  by (induction m) (auto simp: has_def)


lemma map_of_filter_key:
  "map_of (filter (\<lambda>(j, v). P j) m) k = (if P k then map_of m k else None)"
  by (induction m) auto

lemma childrenOf_pushChild:
  "childrenOf (pushChild cm p x) q = (if q = p then childrenOf cm p @ [x] else childrenOf cm q)"
  by (simp add: childrenOf_def pushChild_def update_conv')

lemma has_pushChild: "has (pushChild cm p x) p"
  by (simp add: has_map_of pushChild_def update_conv')

lemma unlink_withoutFirst:
  "(case findIndex (\<lambda>child. item_id child = k) cs of None \<Rightarrow> cs | Some i \<Rightarrow> splice1 i cs)
   = withoutFirst k cs"
  by (induction cs) (auto simp: splice1_def split: option.splits)

lemma childrenOf_unlinkChild:
  "childrenOf (unlinkChild cm p k) q
   = (if q = p then withoutFirst k (childrenOf cm p) else childrenOf cm q)"
proof (cases "map_of cm p")
  case None
  then show ?thesis by (simp add: unlinkChild_def childrenOf_def)
next
  case (Some cs)
  show ?thesis
  proof (cases "findIndex (\<lambda>child. item_id child = k) cs")
    case None
    with unlink_withoutFirst [where k = k and cs = cs] have "withoutFirst k cs = cs" by simp
    with None Some show ?thesis by (simp add: unlinkChild_def childrenOf_def)
  next
    case (Some i)
    with unlink_withoutFirst [where k = k and cs = cs] have "withoutFirst k cs = splice1 i cs" by simp
    with Some \<open>map_of cm p = Some cs\<close> show ?thesis
      by (simp add: unlinkChild_def childrenOf_def update_conv')
  qed
qed

lemma ids_withoutFirst: "map item_id (withoutFirst k cs) = remove1 k (map item_id cs)"
  by (induction cs) auto

lemma filter_withoutFirst:
  "filter (\<lambda>c. item_id c \<noteq> k) (withoutFirst k cs) = filter (\<lambda>c. item_id c \<noteq> k) cs"
  by (induction cs) auto

lemma set_withoutFirst: "set (withoutFirst k cs) \<subseteq> set cs"
  by (induction cs) auto

lemma in_withoutFirst: "c \<in> set cs \<Longrightarrow> item_id c \<noteq> k \<Longrightarrow> c \<in> set (withoutFirst k cs)"
  by (induction cs) auto

lemma getChildren_relink:
  "childrenOf (relink cm e u) q =
     (if parent e = parent u then childrenOf cm q
      else if parent u = Some q then childrenOf cm q @ [u]
      else if parent e = Some q then withoutFirst (item_id u) (childrenOf cm q)
      else childrenOf cm q)"
  by (cases "parent e"; cases "parent u")
     (auto simp: relink_def childrenOf_pushChild childrenOf_unlinkChild)


section \<open>A validated update\<close>



section \<open>Loops that do not end\<close>

lemma generation_fixed: "nextGen cm q = q \<Longrightarrow> generation cm q n = q"
  by (induction n) simp_all

lemma bfsLoop_diverges:
  assumes "generation cm q m = r" and "nextGen cm r = r" and "r \<noteq> []"
  shows "bfsLoop cm q acc = None"
proof -
  have "bfsLoop cm r (acc @ levels cm q m) = None"
    using assms(2,3) by (simp add: bfsLoop_None_iff generation_fixed)
  with bfsLoop_generation [of cm q acc m] assms(1) show ?thesis by simp
qed

lemma selfLoopStore_unfold:
  "selfLoopStore = \<lparr> items = [(Num 1, mk (Num 1) (Some (Num 1)) ''a'')],
                      childrenMap = [(Num 1, [mk (Num 1) (Some (Num 1)) ''a''])] \<rparr>"
  by (simp add: selfLoopStore_def constructor_def initialize_def mk_def pushChild_def childrenOf_def)

lemma shadowedLoopStore_unfold:
  "shadowedLoopStore = \<lparr> items = [(Num 1, mk (Num 1) None ''b'')],
                          childrenMap = [(Num 1, [mk (Num 1) (Some (Num 1)) ''a''])] \<rparr>"
  by (simp add: shadowedLoopStore_def constructor_def initialize_def mk_def pushChild_def
      childrenOf_def)

lemma danglingLoopStore_unfold:
  "danglingLoopStore = \<lparr> items = [(Num 2, mk (Num 2) (Some (Num 2)) ''b'')],
                          childrenMap = [(Num 9, [mk (Num 2) (Some (Num 9)) ''a'']),
                                         (Num 2, [mk (Num 2) (Some (Num 2)) ''b''])] \<rparr>"
  by (simp add: danglingLoopStore_def constructor_def initialize_def mk_def pushChild_def
      childrenOf_def)

lemma selfLoop_getAllChildren: "getAllChildren selfLoopStore (Num 1) = None"
  unfolding getAllChildren_def
  by (rule bfsLoop_diverges [where m = 0 and r = "[mk (Num 1) (Some (Num 1)) ''a'']"])
     (simp_all add: selfLoopStore_unfold getChildren_def childrenOf_def nextGen_def mk_def)

lemma shadowedLoop_getAllChildren: "getAllChildren shadowedLoopStore (Num 1) = None"
  unfolding getAllChildren_def
  by (rule bfsLoop_diverges [where m = 0 and r = "[mk (Num 1) (Some (Num 1)) ''a'']"])
     (simp_all add: shadowedLoopStore_unfold getChildren_def childrenOf_def nextGen_def mk_def)

lemma danglingLoop_getAllChildren: "getAllChildren danglingLoopStore (Num 9) = None"
  unfolding getAllChildren_def
  by (rule bfsLoop_diverges [where m = 1 and r = "[mk (Num 2) (Some (Num 2)) ''b'']"])
     (simp_all add: danglingLoopStore_unfold getChildren_def childrenOf_def nextGen_def mk_def)

section \<open>The outcomes of addItem\<close>

lemma addItem_returned:
  assumes "addItem s x = Some (Inr s')"
  shows "\<not> has (items s) (item_id x) \<and>
         items s' = AList.update (item_id x) x (items s) \<and>
         (case parent x of
            None \<Rightarrow> childrenMap s' = childrenMap s
          | Some p \<Rightarrow> childrenMap s' = pushChild (childrenMap s) p x \<and> has (items s) p \<and>
                      wouldCreateCircularReference s (item_id x) p = Some False)"
proof (cases "parent x")
  case None
  with assms show ?thesis by (cases "has (items s) (item_id x)") (auto simp: addItem_def)
next
  case (Some p)
  with assms have h: "\<not> has (items s) (item_id x)" "has (items s) p"
    by (auto simp: addItem_def split: if_splits)
  with assms Some show ?thesis
    by (cases "wouldCreateCircularReference s (item_id x) p")
       (auto simp: addItem_def split: bool.splits)
qed

text \<open>
  Claim C4, as the code has it.  \<open>addItem\<close> throws \<open>ItemAlreadyExists\<close> exactly when the
  identifier is a key of the primary index.  Otherwise it throws \<open>ParentNotFound\<close> exactly
  when the parent is non-null and not a key.  Otherwise, when the parent is null or the
  traversal \<open>getAllChildren\<close> of the new identifier returns, the call throws
  \<open>CircularReference\<close> exactly when the parent is non-null and equals the identifier or is the
  identifier of a listed descendant, and returns normally exactly when it does not.  After
  every normal return the item is the new last entry of the primary index and of its parent's
  child list (a list that exists afterwards), and every other child list is unchanged.
\<close>

theorem addItem_outcomes:
  "((\<exists>j t. addItem s item = Some (Inl (ItemAlreadyExists j, t))) \<longleftrightarrow>
      has (items s) (item_id item)) \<and>
   (\<not> has (items s) (item_id item) \<longrightarrow>
      ((\<exists>q t. addItem s item = Some (Inl (ParentNotFound q, t))) \<longleftrightarrow>
       (\<exists>q. parent item = Some q \<and> \<not> has (items s) q))) \<and>
   (\<not> has (items s) (item_id item) \<and>
    (parent item = None \<or>
     (parent item = Some p \<and> has (items s) p \<and> getAllChildren s (item_id item) = Some ds)) \<longrightarrow>
      ((\<exists>t. addItem s item = Some (Inl (CircularReference, t))) \<longleftrightarrow>
       (parent item = Some p \<and> (p = item_id item \<or> p \<in> item_id ` set ds))) \<and>
      ((\<exists>s'. addItem s item = Some (Inr s')) \<longleftrightarrow>
       \<not> (parent item = Some p \<and> (p = item_id item \<or> p \<in> item_id ` set ds)))) \<and>
   (\<forall>s'. addItem s item = Some (Inr s') \<longrightarrow>
      items s' = items s @ [(item_id item, item)] \<and>
      getItem s' (item_id item) = Some item \<and>
      getAll s' = getAll s @ [item] \<and>
      (\<forall>q. getChildren s' q =
             (if parent item = Some q then getChildren s q @ [item] else getChildren s q)) \<and>
      (\<forall>q. parent item = Some q \<longrightarrow> has (childrenMap s') q))"
proof -
  have a: "(\<exists>j t. addItem s item = Some (Inl (ItemAlreadyExists j, t))) \<longleftrightarrow>
      has (items s) (item_id item)"
    by (auto simp: addItem_def split: option.splits if_splits bool.splits)
  have b: "\<not> has (items s) (item_id item) \<longrightarrow>
      ((\<exists>q t. addItem s item = Some (Inl (ParentNotFound q, t))) \<longleftrightarrow>
       (\<exists>q. parent item = Some q \<and> \<not> has (items s) q))"
    by (auto simp: addItem_def split: option.splits if_splits bool.splits)
  have c: "\<not> has (items s) (item_id item) \<and>
    (parent item = None \<or>
     (parent item = Some p \<and> has (items s) p \<and> getAllChildren s (item_id item) = Some ds)) \<longrightarrow>
      ((\<exists>t. addItem s item = Some (Inl (CircularReference, t))) \<longleftrightarrow>
       (parent item = Some p \<and> (p = item_id item \<or> p \<in> item_id ` set ds))) \<and>
      ((\<exists>s'. addItem s item = Some (Inr s')) \<longleftrightarrow>
       \<not> (parent item = Some p \<and> (p = item_id item \<or> p \<in> item_id ` set ds)))"
    by (auto simp: addItem_def wouldCreateCircularReference_def list_ex_iff
             split: option.splits if_splits bool.splits)
  have d: "\<forall>s'. addItem s item = Some (Inr s') \<longrightarrow>
      items s' = items s @ [(item_id item, item)] \<and>
      getItem s' (item_id item) = Some item \<and>
      getAll s' = getAll s @ [item] \<and>
      (\<forall>q. getChildren s' q =
             (if parent item = Some q then getChildren s q @ [item] else getChildren s q)) \<and>
      (\<forall>q. parent item = Some q \<longrightarrow> has (childrenMap s') q)"
  proof (intro allI impI)
    fix s' assume r: "addItem s item = Some (Inr s')"
    from addItem_returned [OF r] have n: "\<not> has (items s) (item_id item)"
      and i: "items s' = AList.update (item_id item) item (items s)"
      and c: "case parent item of
              None \<Rightarrow> childrenMap s' = childrenMap s
            | Some p \<Rightarrow> childrenMap s' = pushChild (childrenMap s) p item \<and> has (items s) p \<and>
                        wouldCreateCircularReference s (item_id item) p = Some False"
      by simp_all
    from n have u: "AList.update (item_id item) item (items s) = items s @ [(item_id item, item)]"
      by (rule update_absent)
    from n have m: "map_of (items s) (item_id item) = None" by (simp add: has_map_of)
    show "items s' = items s @ [(item_id item, item)] \<and>
      getItem s' (item_id item) = Some item \<and>
      getAll s' = getAll s @ [item] \<and>
      (\<forall>q. getChildren s' q =
             (if parent item = Some q then getChildren s q @ [item] else getChildren s q)) \<and>
      (\<forall>q. parent item = Some q \<longrightarrow> has (childrenMap s') q)"
      using i u m c
      by (cases "parent item")
         (simp_all add: getItem_def getAll_def getChildren_def map_add_def
            childrenOf_pushChild has_pushChild)
  qed
  from a b c d show ?thesis by (intro conjI)
qed

theorem addItem_outcomes_witness:
  "\<not> has (items fixture) (Num 9) \<and> has (items fixture) (Num 1) \<and> has (items fixture) (Num 7) \<and>
   getAllChildren fixture (Num 9) = Some [] \<and>
   (\<exists>s'. addItem fixture (mk (Num 9) (Some (Num 1)) ''New child'') = Some (Inr s') \<and>
         getAll s' = getAll fixture @ [mk (Num 9) (Some (Num 1)) ''New child''] \<and>
         getChildren s' (Num 1)
           = getChildren fixture (Num 1) @ [mk (Num 9) (Some (Num 1)) ''New child'']) \<and>
   (\<exists>j t. addItem fixture (mk (Num 7) None ''Again'') = Some (Inl (ItemAlreadyExists j, t))) \<and>
   (\<exists>q t. addItem fixture (mk (Num 9) (Some (Num 10)) ''Orphan'') = Some (Inl (ParentNotFound q, t)))"
proof -
  let ?x = "mk (Num 9) (Some (Num 1)) ''New child''"
  let ?o = "mk (Num 9) (Some (Num 10)) ''Orphan''"
  have i: "item_id ?x = Num 9" "parent ?x = Some (Num 1)" by (simp_all add: mk_def)
  have h: "\<not> has (items fixture) (Num 9)" "has (items fixture) (Num 1)"
    "has (items fixture) (Num 7)" "getAllChildren fixture (Num 9) = Some []"
    "\<not> has (items fixture) (Num 10)"
    by (simp_all add: eval_simps)
  have j: "item_id (mk (Num 7) None ''Again'') = Num 7" by (simp add: mk_def)
  have o: "item_id ?o = Num 9" "parent ?o = Some (Num 10)" by (simp_all add: mk_def)
  note t = addItem_outcomes [of fixture ?x "Num 1" "[]"]
  from t h i obtain s' where s': "addItem fixture ?x = Some (Inr s')" by auto
  with t i have "getAll s' = getAll fixture @ [?x]"
    "getChildren s' (Num 1) = getChildren fixture (Num 1) @ [?x]"
    by simp_all
  with s' have 1: "\<exists>s'. addItem fixture ?x = Some (Inr s') \<and> getAll s' = getAll fixture @ [?x] \<and>
         getChildren s' (Num 1) = getChildren fixture (Num 1) @ [?x]"
    by blast
  from addItem_outcomes [of fixture "mk (Num 7) None ''Again''"] h j
  have 2: "\<exists>j t. addItem fixture (mk (Num 7) None ''Again'') = Some (Inl (ItemAlreadyExists j, t))"
    by simp
  from addItem_outcomes [of fixture ?o] h o
  have 3: "\<exists>q t. addItem fixture ?o = Some (Inl (ParentNotFound q, t))"
    by simp
  from h(1-4) 1 2 3 show ?thesis by (intro conjI)
qed

text \<open>
  On \<open>danglingLoopStore\<close> the identifier 9 is not stored and the parent 2 is, and the cycle
  check for 9 walks from the entry under 9 into the loop of 2, where the queue never runs
  empty: the call neither throws one of the three errors nor inserts the item.
\<close>

theorem addItem_no_return_counterexample:
  "\<not> has (items danglingLoopStore) (Num 9) \<and> has (items danglingLoopStore) (Num 2) \<and>
   addItem danglingLoopStore (mk (Num 9) (Some (Num 2)) ''x'') = None"
  by (simp add: addItem_def wouldCreateCircularReference_def mk_def danglingLoop_getAllChildren)
     (simp add: danglingLoopStore_unfold has_def)

section \<open>The cascade of removeItem\<close>

lemma delete_as_filter: "AList.delete k m = filter (\<lambda>(j, v). j \<noteq> k) m"
  by (induction m) auto

lemma filter_drop_key_then:
  "filter (\<lambda>(j, v). j \<notin> item_id ` set ds) (filter (\<lambda>(j, v). j \<noteq> item_id d) m)
   = filter (\<lambda>(j, v). j \<notin> item_id ` set (d # ds)) m"
  by (induction m) auto

lemma filter_drop_key_last:
  "filter (\<lambda>(j, v). j \<noteq> k) (filter (\<lambda>(j, v). j \<notin> item_id ` set ds) m)
   = filter (\<lambda>(j, v). j \<noteq> k \<and> j \<notin> item_id ` set ds) m"
  by (induction m) auto

lemma deleteAll_filter:
  "deleteAll ds s =
     \<lparr> items = filter (\<lambda>(j, v). j \<notin> item_id ` set ds) (items s),
       childrenMap = filter (\<lambda>(j, v). j \<notin> item_id ` set ds) (childrenMap s) \<rparr>"
proof -
  have "fold (\<lambda>child t. \<lparr> items = AList.delete (item_id child) (items t),
                           childrenMap = AList.delete (item_id child) (childrenMap t) \<rparr>) ds
          \<lparr> items = a, childrenMap = b \<rparr>
        = \<lparr> items = filter (\<lambda>(j, v). j \<notin> item_id ` set ds) a,
            childrenMap = filter (\<lambda>(j, v). j \<notin> item_id ` set ds) b \<rparr>" for a b
  proof (induction ds arbitrary: a b)
    case Nil
    show ?case by simp
  next
    case (Cons d ds)
    let ?f = "\<lambda>child t. \<lparr> items = AList.delete (item_id child) (items t),
                             childrenMap = AList.delete (item_id child) (childrenMap t) \<rparr>"
    have "fold ?f (d # ds) \<lparr> items = a, childrenMap = b \<rparr>
          = fold ?f ds \<lparr> items = AList.delete (item_id d) a,
                        childrenMap = AList.delete (item_id d) b \<rparr>"
      by simp
    also have "\<dots> = \<lparr> items = filter (\<lambda>(j, v). j \<notin> item_id ` set ds)
                                (AList.delete (item_id d) a),
                       childrenMap = filter (\<lambda>(j, v). j \<notin> item_id ` set ds)
                                (AList.delete (item_id d) b) \<rparr>"
      by (rule Cons.IH)
    also have "\<dots> = \<lparr> items = filter (\<lambda>(j, v). j \<notin> item_id ` set (d # ds)) a,
                       childrenMap = filter (\<lambda>(j, v). j \<notin> item_id ` set (d # ds)) b \<rparr>"
      by (simp only: delete_as_filter filter_drop_key_then)
    finally show ?case .
  qed
  from this [of "items s" "childrenMap s"] show ?thesis by (cases s) (simp add: deleteAll_def)
qed

lemma childrenOf_filter_key:
  "childrenOf (filter (\<lambda>(j, v). P j) cm) k = (if P k then childrenOf cm k else [])"
  by (simp add: childrenOf_def map_of_filter_key)

lemma removeItem_present:
  assumes "getItem s k = Some x" and "getAllChildren s k = Some ds"
  shows "removeItem s k =
     Some \<lparr> items = filter (\<lambda>(j, v). j \<noteq> k \<and> j \<notin> item_id ` set ds) (items s),
            childrenMap =
              (case parent x of
                 None \<Rightarrow> filter (\<lambda>(j, v). j \<noteq> k \<and> j \<notin> item_id ` set ds) (childrenMap s)
               | Some p \<Rightarrow>
                   unlinkChild
                     (filter (\<lambda>(j, v). j \<noteq> k \<and> j \<notin> item_id ` set ds) (childrenMap s)) p k) \<rparr>"
proof -
  from assms show ?thesis
    by (cases "parent x")
       (simp_all add: removeItem_def deleteAll_filter delete_as_filter filter_drop_key_last Let_def
          del: filter_filter)
qed

text \<open>
  Claim C7, as the code has it.  For an identifier that is not stored, and for a stored one
  whose traversal \<open>getAllChildren\<close> returns, \<open>removeItem\<close> returns a state: it does not fail.
  For an identifier that is not stored the state is the store unchanged.  For a stored one the
  primary index has lost the identifier and the identifiers of all listed descendants and
  keeps every other entry in place, the child lists of these identifiers are gone, the child
  list of the item's parent (when the parent is not itself removed) has lost its first entry
  for the identifier and keeps the others in their order, and every other child list is as
  before.  On the fixture, removing A takes the eight items down to 1 and 3, and the child
  list of 1 down to 3.
\<close>

theorem removeItem_cascade:
  "(getItem s k = None \<or> getAllChildren s k \<noteq> None \<longrightarrow> removeItem s k \<noteq> None) \<and>
   (getItem s k = None \<longrightarrow> removeItem s k = Some s) \<and>
   (getItem s k = Some x \<and> getAllChildren s k = Some ds \<longrightarrow>
      (\<exists>s'. removeItem s k = Some s' \<and>
         items s' = filter (\<lambda>(j, v). j \<noteq> k \<and> j \<notin> item_id ` set ds) (items s) \<and>
         (\<forall>j. getItem s' j =
                (if j = k \<or> j \<in> item_id ` set ds then None else getItem s j)) \<and>
         (\<forall>j. getChildren s' j =
                (if j = k \<or> j \<in> item_id ` set ds then []
                 else if parent x = Some j then withoutFirst k (getChildren s j)
                 else getChildren s j)) \<and>
         (\<forall>j. parent x = Some j \<and> j \<noteq> k \<and> j \<notin> item_id ` set ds \<longrightarrow>
                map item_id (getChildren s' j) = remove1 k (map item_id (getChildren s j)) \<and>
                filter (\<lambda>c. item_id c \<noteq> k) (getChildren s' j)
                  = filter (\<lambda>c. item_id c \<noteq> k) (getChildren s j)))) \<and>
   length (getAll fixture) = 8 \<and>
   map_option (\<lambda>s'. (map item_id (getAll s'), map item_id (getChildren s' (Num 1))))
     (removeItem fixture A) = Some ([Num 1, Num 3], [Num 3])"
proof -
  have z: "getItem s k = None \<or> getAllChildren s k \<noteq> None \<longrightarrow> removeItem s k \<noteq> None"
    by (auto simp: removeItem_def Let_def split: option.splits)
  have a: "getItem s k = None \<longrightarrow> removeItem s k = Some s"
    by (simp add: removeItem_def)
  have b: "getItem s k = Some x \<and> getAllChildren s k = Some ds \<longrightarrow>
      (\<exists>s'. removeItem s k = Some s' \<and>
         items s' = filter (\<lambda>(j, v). j \<noteq> k \<and> j \<notin> item_id ` set ds) (items s) \<and>
         (\<forall>j. getItem s' j =
                (if j = k \<or> j \<in> item_id ` set ds then None else getItem s j)) \<and>
         (\<forall>j. getChildren s' j =
                (if j = k \<or> j \<in> item_id ` set ds then []
                 else if parent x = Some j then withoutFirst k (getChildren s j)
                 else getChildren s j)) \<and>
         (\<forall>j. parent x = Some j \<and> j \<noteq> k \<and> j \<notin> item_id ` set ds \<longrightarrow>
                map item_id (getChildren s' j) = remove1 k (map item_id (getChildren s j)) \<and>
                filter (\<lambda>c. item_id c \<noteq> k) (getChildren s' j)
                  = filter (\<lambda>c. item_id c \<noteq> k) (getChildren s j)))"
  proof (intro impI, elim conjE)
    assume g: "getItem s k = Some x" and d: "getAllChildren s k = Some ds"
    let ?keep = "\<lambda>j. j \<noteq> k \<and> j \<notin> item_id ` set ds"
    let ?cm = "filter (\<lambda>(j, v). ?keep j) (childrenMap s)"
    let ?s' = "\<lparr> items = filter (\<lambda>(j, v). ?keep j) (items s),
                 childrenMap = (case parent x of None \<Rightarrow> ?cm | Some p \<Rightarrow> unlinkChild ?cm p k) \<rparr>"
    have r: "removeItem s k = Some ?s'" using g d by (rule removeItem_present)
    have 1: "\<forall>j. getItem ?s' j = (if j = k \<or> j \<in> item_id ` set ds then None else getItem s j)"
      by (simp add: getItem_def map_of_filter_key)
    have 2: "\<forall>j. getChildren ?s' j =
                (if j = k \<or> j \<in> item_id ` set ds then []
                 else if parent x = Some j then withoutFirst k (getChildren s j)
                 else getChildren s j)"
      by (cases "parent x")
         (simp_all add: getChildren_def childrenOf_unlinkChild childrenOf_filter_key)
    have 3: "\<forall>j. parent x = Some j \<and> j \<noteq> k \<and> j \<notin> item_id ` set ds \<longrightarrow>
                map item_id (getChildren ?s' j) = remove1 k (map item_id (getChildren s j)) \<and>
                filter (\<lambda>c. item_id c \<noteq> k) (getChildren ?s' j)
                  = filter (\<lambda>c. item_id c \<noteq> k) (getChildren s j)"
    proof (intro allI impI, elim conjE)
      fix j
      assume p: "parent x = Some j" and j: "j \<noteq> k" "j \<notin> item_id ` set ds"
      from 2 have "getChildren ?s' j =
                (if j = k \<or> j \<in> item_id ` set ds then []
                 else if parent x = Some j then withoutFirst k (getChildren s j)
                 else getChildren s j)" by (rule spec)
      with p j have "getChildren ?s' j = withoutFirst k (getChildren s j)" by simp
      then show "map item_id (getChildren ?s' j) = remove1 k (map item_id (getChildren s j)) \<and>
                filter (\<lambda>c. item_id c \<noteq> k) (getChildren ?s' j)
                  = filter (\<lambda>c. item_id c \<noteq> k) (getChildren s j)"
        by (simp only: ids_withoutFirst filter_withoutFirst)
    qed
    have 0: "items ?s' = filter (\<lambda>(j, v). j \<noteq> k \<and> j \<notin> item_id ` set ds) (items s)" by simp
    from r 0 1 2 3 show "\<exists>s'. removeItem s k = Some s' \<and>
         items s' = filter (\<lambda>(j, v). j \<noteq> k \<and> j \<notin> item_id ` set ds) (items s) \<and>
         (\<forall>j. getItem s' j =
                (if j = k \<or> j \<in> item_id ` set ds then None else getItem s j)) \<and>
         (\<forall>j. getChildren s' j =
                (if j = k \<or> j \<in> item_id ` set ds then []
                 else if parent x = Some j then withoutFirst k (getChildren s j)
                 else getChildren s j)) \<and>
         (\<forall>j. parent x = Some j \<and> j \<noteq> k \<and> j \<notin> item_id ` set ds \<longrightarrow>
                map item_id (getChildren s' j) = remove1 k (map item_id (getChildren s j)) \<and>
                filter (\<lambda>c. item_id c \<noteq> k) (getChildren s' j)
                  = filter (\<lambda>c. item_id c \<noteq> k) (getChildren s j))"
      by blast
  qed
  have c: "length (getAll fixture) = 8" by (simp add: eval_simps)
  have d: "map_option (\<lambda>s'. (map item_id (getAll s'), map item_id (getChildren s' (Num 1))))
     (removeItem fixture A) = Some ([Num 1, Num 3], [Num 3])"
    by (simp add: eval_simps)
  from z a b c d show ?thesis by (intro conjI)
qed

theorem removeItem_cascade_witness:
  "getItem fixture (Num 999) = None \<and> removeItem fixture (Num 999) = Some fixture \<and>
   getItem fixture (Num 4) = Some (mk (Num 4) (Some A) ''Item 4'') \<and>
   getAllChildren fixture (Num 4)
     = Some [mk (Num 7) (Some (Num 4)) ''Item 7'', mk (Num 8) (Some (Num 4)) ''Item 8''] \<and>
   (\<exists>s'. removeItem fixture (Num 4) = Some s' \<and>
         map item_id (getAll s') = [Num 1, A, Num 3, Num 5, Num 6] \<and>
         map item_id (getChildren s' A) = [Num 5, Num 6])"
proof -
  let ?x = "mk (Num 4) (Some A) ''Item 4''"
  let ?ds = "[mk (Num 7) (Some (Num 4)) ''Item 7'', mk (Num 8) (Some (Num 4)) ''Item 8'']"
  have h: "getItem fixture (Num 999) = None" "getItem fixture (Num 4) = Some ?x"
    "getAllChildren fixture (Num 4) = Some ?ds"
    by (simp_all add: eval_simps)
  from removeItem_cascade [of fixture "Num 999"] h(1)
  have n: "removeItem fixture (Num 999) = Some fixture" by blast
  from removeItem_cascade [of fixture "Num 4" ?x ?ds] h(2,3)
  obtain s' where s': "removeItem fixture (Num 4) = Some s'"
    "items s' = filter (\<lambda>(j, v). j \<noteq> Num 4 \<and> j \<notin> item_id ` set ?ds) (items fixture)"
    "\<forall>j. getChildren s' j =
                (if j = Num 4 \<or> j \<in> item_id ` set ?ds then []
                 else if parent ?x = Some j then withoutFirst (Num 4) (getChildren fixture j)
                 else getChildren fixture j)"
    by blast
  from s'(2) have 1: "map item_id (getAll s') = [Num 1, A, Num 3, Num 5, Num 6]"
    by (simp add: getAll_def fixture_unfold mk_def A_def)
  from s'(3) have 2: "map item_id (getChildren s' A) = [Num 5, Num 6]"
    by (simp add: getChildren_def childrenOf_def fixture_unfold mk_def A_def)
  have e: "\<exists>s'. removeItem fixture (Num 4) = Some s' \<and>
         map item_id (getAll s') = [Num 1, A, Num 3, Num 5, Num 6] \<and>
         map item_id (getChildren s' A) = [Num 5, Num 6]"
    using s'(1) 1 2 by (intro exI [of _ s'] conjI)
  from h(1) n h(2) h(3) e show ?thesis by (intro conjI)
qed

text \<open>
  On \<open>selfLoopStore\<close> the item 1 is stored and lists itself as its child: the queue of the
  traversal that collects what to delete never runs empty, and the call returns no state;
  nothing is deleted.
\<close>

theorem removeItem_no_return_counterexample:
  "getItem selfLoopStore (Num 1) = Some (mk (Num 1) (Some (Num 1)) ''a'') \<and>
   removeItem selfLoopStore (Num 1) = None"
proof -
  have g: "getItem selfLoopStore (Num 1) = Some (mk (Num 1) (Some (Num 1)) ''a'')"
    by (simp add: getItem_def selfLoopStore_unfold)
  then show ?thesis by (simp add: removeItem_def selfLoop_getAllChildren)
qed

section \<open>Finite and acyclic link relations\<close>

lemma finite_parentRel: "finite (parentRel s)"
proof -
  have "parentRel s \<subseteq> (\<lambda>(k, x). (k, the (parent x))) ` set (items s)"
  proof
    fix e assume "e \<in> parentRel s"
    then obtain k p x where e: "e = (k, p)" and g: "map_of (items s) k = Some x"
      and p: "parent x = Some p"
      by (auto simp: parentRel_def getItem_def)
    from g have "(k, x) \<in> set (items s)" by (rule map_of_SomeD)
    with e p show "e \<in> (\<lambda>(k, x). (k, the (parent x))) ` set (items s)" by force
  qed
  then show ?thesis by (rule finite_subset) simp
qed

lemma finite_childRel: "finite (childRel s)"
proof -
  have "childRel s \<subseteq> (\<Union>(p, cs) \<in> set (childrenMap s). (\<lambda>c. (item_id c, p)) ` set cs)"
  proof
    fix e assume "e \<in> childRel s"
    then obtain c p where e: "e = (item_id c, p)" and c: "c \<in> set (childrenOf (childrenMap s) p)"
      by (auto simp: childRel_def getChildren_def)
    then obtain cs where m: "map_of (childrenMap s) p = Some cs" and "c \<in> set cs"
      by (cases "map_of (childrenMap s) p") (auto simp: childrenOf_def)
    from m have "(p, cs) \<in> set (childrenMap s)" by (rule map_of_SomeD)
    with e \<open>c \<in> set cs\<close> show "e \<in> (\<Union>(p, cs) \<in> set (childrenMap s). (\<lambda>c. (item_id c, p)) ` set cs)"
      by force
  qed
  then show ?thesis by (rule finite_subset) auto
qed

lemma acyclic_ranked:
  fixes f :: "'a \<Rightarrow> nat"
  assumes "\<And>a b. (a, b) \<in> r \<Longrightarrow> f a < f b"
  shows "acyclic r"
proof -
  from assms have "r \<subseteq> measure f" by auto
  then have "wf r" by (rule wf_subset [OF wf_measure])
  then show ?thesis by (rule wf_acyclic)
qed

section \<open>The parent walk\<close>

lemma parentsLoop_chain:
  assumes "wf ((parentRel s)\<inverse>)"
  shows "getItem s k = Some x \<Longrightarrow>
         \<exists>ps. parentsLoop s x acc = Some (acc @ ps) \<and> ancestorChain s (x # ps)"
  using assms
proof (induction k arbitrary: x acc rule: wf_induct_rule)
  case (less k)
  show ?case
  proof (cases "parent x")
    case None
    then have "parentsLoop s x acc = Some (acc @ [])" "ancestorChain s (x # [])"
      by (simp_all add: parentsLoop.simps)
    then show ?thesis by blast
  next
    case (Some p)
    show ?thesis
    proof (cases "getItem s p")
      case None
      with Some have "parentsLoop s x acc = Some (acc @ [])" "ancestorChain s (x # [])"
        by (simp_all add: parentsLoop.simps)
      then show ?thesis by blast
    next
      case (Some par)
      from less.prems \<open>parent x = Some p\<close> have "(p, k) \<in> (parentRel s)\<inverse>"
        by (auto simp: parentRel_def)
      from less.IH [OF this Some, of "acc @ [par]"]
      obtain ps where ps: "parentsLoop s par (acc @ [par]) = Some ((acc @ [par]) @ ps)"
        "ancestorChain s (par # ps)" by blast
      from \<open>parent x = Some p\<close> Some ps(1)
      have "parentsLoop s x acc = Some (acc @ (par # ps))"
        by (subst parentsLoop.simps) simp
      moreover from \<open>parent x = Some p\<close> Some ps(2) have "ancestorChain s (x # par # ps)"
        by simp
      ultimately show ?thesis by blast
    qed
  qed
qed

lemma parentsLoop_self:
  assumes "parentsLoop s x acc = Some res"
  shows "\<forall>p. \<not> (parent x = Some p \<and> getItem s p = Some x)"
proof (rule parentsLoop.raw_induct
    [where P = "\<lambda>s x acc res. \<forall>p. \<not> (parent x = Some p \<and> getItem s p = Some x)",
     OF _ assms])
  fix loop s and x :: TreeStoreItem and acc res
  assume IH: "\<And>s x acc res. loop s x acc = Some res \<Longrightarrow>
                 \<forall>p. \<not> (parent x = Some p \<and> getItem s p = Some x)"
    and body: "(case parent x of None \<Rightarrow> Some acc
                | Some p \<Rightarrow> (case getItem s p of None \<Rightarrow> Some acc
                             | Some par \<Rightarrow> loop s par (acc @ [par]))) = Some res"
  show "\<forall>p. \<not> (parent x = Some p \<and> getItem s p = Some x)"
  proof (intro allI notI)
    fix p
    assume a: "parent x = Some p \<and> getItem s p = Some x"
    with body have "loop s x (acc @ [x]) = Some res" by simp
    from IH [OF this] a show False by blast
  qed
qed

lemma parentsLoop_self_None:
  "parent x = Some p \<Longrightarrow> getItem s p = Some x \<Longrightarrow> parentsLoop s x acc = None"
  using parentsLoop_self [of s x acc] by (cases "parentsLoop s x acc") auto


section \<open>The fixture satisfies the invariants\<close>

lemma A_not_Num: "A \<noteq> Num n" "Num n \<noteq> A"
  by (simp_all add: A_def)

lemma parentRel_in_items:
  "(k, p) \<in> parentRel s \<Longrightarrow> \<exists>x. (k, x) \<in> set (items s) \<and> parent x = Some p"
  by (auto simp: parentRel_def getItem_def dest: map_of_SomeD)

lemma childRel_in_index:
  "(c, p) \<in> childRel s \<Longrightarrow> \<exists>cs x. (p, cs) \<in> set (childrenMap s) \<and> x \<in> set cs \<and> item_id x = c"
proof -
  assume "(c, p) \<in> childRel s"
  then obtain x where x: "x \<in> set (childrenOf (childrenMap s) p)" "item_id x = c"
    by (auto simp: childRel_def getChildren_def)
  then obtain cs where m: "map_of (childrenMap s) p = Some cs" and "x \<in> set cs"
    by (cases "map_of (childrenMap s) p") (auto simp: childrenOf_def)
  from m have "(p, cs) \<in> set (childrenMap s)" by (rule map_of_SomeD)
  with x(2) \<open>x \<in> set cs\<close> show ?thesis by blast
qed

lemma indexInverse_childRel: "indexInverse s \<Longrightarrow> childRel s \<subseteq> parentRel s"
proof
  fix e assume inv: "indexInverse s" and "e \<in> childRel s"
  then obtain c p where e: "e = (c, p)" and "(c, p) \<in> childRel s" by (cases e) auto
  from childRel_in_index [OF this(2)] obtain cs x where
    "(p, cs) \<in> set (childrenMap s)" "x \<in> set cs" "item_id x = c" by blast
  with inv have "getItem s c = Some x \<and> parent x = Some p" by (auto simp: indexInverse_def)
  with e show "e \<in> parentRel s" by (auto simp: parentRel_def)
qed

lemma invariants_acyclic_childRel:
  "indexInverse s \<Longrightarrow> acyclicParents s \<Longrightarrow> acyclic (childRel s)"
  unfolding acyclicParents_def by (erule acyclic_subset) (rule indexInverse_childRel)

lemma fixture_acyclicParents: "acyclicParents fixture"
  unfolding acyclicParents_def
proof (rule acyclic_ranked [where f = fixtureRank])
  fix a b assume "(a, b) \<in> parentRel fixture"
  from parentRel_in_items [OF this] show "fixtureRank a < fixtureRank b"
    by (auto simp: fixture_unfold mk_def fixtureRank_def A_not_Num)
qed

lemma fixture_invariants: "invariants fixture"
proof -
  have "uniqueIds fixture" by (simp add: uniqueIds_def fixture_unfold mk_def A_not_Num)
  moreover have "parentsExist fixture"
    by (simp add: parentsExist_def has_def fixture_unfold mk_def A_not_Num)
  moreover have "indexInverse fixture"
    by (simp add: indexInverse_def getItem_def getChildren_def childrenOf_def fixture_unfold
        mk_def A_not_Num)
  ultimately show ?thesis using fixture_acyclicParents by (simp add: invariants_def)
qed

lemma fixture_childListsDistinct: "childListsDistinct fixture"
  by (simp add: childListsDistinct_def fixture_unfold mk_def A_not_Num)

lemma fixture_acyclic_childRel: "acyclic (childRel fixture)"
  using fixture_invariants by (simp add: invariants_def invariants_acyclic_childRel)

section \<open>The ancestor chain\<close>

lemma parentsLoop_follows_chain:
  "ancestorChain s (x # ps) \<Longrightarrow> parentsLoop s x acc = Some (acc @ ps)"
proof (induction ps arbitrary: x acc)
  case Nil
  then show ?case by (subst parentsLoop.simps) (simp split: option.splits)
next
  case (Cons y zs)
  from Cons.prems obtain p where p: "parent x = Some p" "getItem s p = Some y"
    and c: "ancestorChain s (y # zs)"
    by (cases "parent x") auto
  from Cons.IH [OF c, of "acc @ [y]"] p show ?case
    by (subst parentsLoop.simps) simp
qed

text \<open>
  Claim C6, as the code has it.  \<open>getAllParents\<close> returns the empty sequence for an identifier
  that is not stored.  For a stored item it walks the parent links, and when they lead to an
  item whose parent is null or is not stored, it returns that chain: the item, the stored
  record of its parent, of that record's parent, and so on, up to that last item.  In a store
  whose parent links are acyclic every stored item has such a chain.  On the fixture, the
  chain of 7 is 7, 4, A, 1.
\<close>

theorem getAllParents_chain:
  "(getItem s k = None \<longrightarrow> getAllParents s k = Some []) \<and>
   (\<forall>x ps. getItem s k = Some x \<and> ancestorChain s (x # ps) \<longrightarrow>
           getAllParents s k = Some (x # ps)) \<and>
   (acyclicParents s \<longrightarrow>
      (\<forall>x. getItem s k = Some x \<longrightarrow>
           (\<exists>ps. ancestorChain s (x # ps) \<and> getAllParents s k = Some (x # ps)))) \<and>
   map_option (map item_id) (getAllParents fixture (Num 7)) = Some [Num 7, Num 4, A, Num 1]"
proof -
  have a: "getItem s k = None \<longrightarrow> getAllParents s k = Some []"
    by (simp add: getAllParents_def)
  have b: "\<forall>x ps. getItem s k = Some x \<and> ancestorChain s (x # ps) \<longrightarrow>
           getAllParents s k = Some (x # ps)"
  proof (intro allI impI, elim conjE)
    fix x ps assume g: "getItem s k = Some x" and c: "ancestorChain s (x # ps)"
    from parentsLoop_follows_chain [OF c, of "[x]"] g
    show "getAllParents s k = Some (x # ps)" by (simp add: getAllParents_def)
  qed
  have c: "acyclicParents s \<longrightarrow>
      (\<forall>x. getItem s k = Some x \<longrightarrow>
           (\<exists>ps. ancestorChain s (x # ps) \<and> getAllParents s k = Some (x # ps)))"
  proof (intro allI impI)
    fix x assume ac: "acyclicParents s" and g: "getItem s k = Some x"
    from ac have wf: "wf ((parentRel s)\<inverse>)"
      by (simp add: acyclicParents_def finite_acyclic_wf_converse finite_parentRel)
    from parentsLoop_chain [OF wf g, of "[x]"] g
    show "\<exists>ps. ancestorChain s (x # ps) \<and> getAllParents s k = Some (x # ps)"
      by (auto simp: getAllParents_def)
  qed
  have d: "map_option (map item_id) (getAllParents fixture (Num 7)) = Some [Num 7, Num 4, A, Num 1]"
    by (simp add: eval_simps parentsLoop.simps)
  from a b c d show ?thesis by (intro conjI)
qed

theorem getAllParents_chain_witness:
  "getItem fixture (Num 999) = None \<and> getAllParents fixture (Num 999) = Some [] \<and>
   getItem fixture (Num 4) = Some (mk (Num 4) (Some A) ''Item 4'') \<and>
   ancestorChain fixture
     [mk (Num 4) (Some A) ''Item 4'', mk A (Some (Num 1)) ''Item 2'', mk (Num 1) None ''Item 1''] \<and>
   getAllParents fixture (Num 4)
     = Some [mk (Num 4) (Some A) ''Item 4'', mk A (Some (Num 1)) ''Item 2'',
             mk (Num 1) None ''Item 1''] \<and>
   acyclicParents fixture \<and>
   (\<exists>ps. ancestorChain fixture (mk (Num 7) (Some (Num 4)) ''Item 7'' # ps) \<and>
         getAllParents fixture (Num 7) = Some (mk (Num 7) (Some (Num 4)) ''Item 7'' # ps))"
proof -
  have g: "getItem fixture (Num 999) = None"
    "getItem fixture (Num 4) = Some (mk (Num 4) (Some A) ''Item 4'')"
    "getItem fixture (Num 7) = Some (mk (Num 7) (Some (Num 4)) ''Item 7'')"
    by (simp_all add: eval_simps)
  have c: "ancestorChain fixture
     [mk (Num 4) (Some A) ''Item 4'', mk A (Some (Num 1)) ''Item 2'', mk (Num 1) None ''Item 1'']"
    by (simp add: getItem_def fixture_unfold mk_def A_not_Num)
  from getAllParents_chain [of fixture "Num 999"] g(1)
  have 1: "getAllParents fixture (Num 999) = Some []" by blast
  from getAllParents_chain [of fixture "Num 4"] g(2) c
  have 2: "getAllParents fixture (Num 4)
     = Some [mk (Num 4) (Some A) ''Item 4'', mk A (Some (Num 1)) ''Item 2'',
             mk (Num 1) None ''Item 1'']"
    by blast
  from getAllParents_chain [of fixture "Num 7"] fixture_acyclicParents g(3)
  have 3: "\<exists>ps. ancestorChain fixture (mk (Num 7) (Some (Num 4)) ''Item 7'' # ps) \<and>
         getAllParents fixture (Num 7) = Some (mk (Num 7) (Some (Num 4)) ''Item 7'' # ps)"
    by blast
  from g(1) 1 g(2) c 2 fixture_acyclicParents 3 show ?thesis by (intro conjI)
qed

text \<open>
  On \<open>selfLoopStore\<close> the stored item 1 has itself as its stored parent: the walk goes from 1
  to 1 and meets neither a null nor a dangling parent, so the call returns no chain.
\<close>

theorem getAllParents_no_return_counterexample:
  "getItem selfLoopStore (Num 1) = Some (mk (Num 1) (Some (Num 1)) ''a'') \<and>
   getAllParents selfLoopStore (Num 1) = None"
proof -
  have g: "getItem selfLoopStore (Num 1) = Some (mk (Num 1) (Some (Num 1)) ''a'')"
    by (simp add: getItem_def selfLoopStore_unfold)
  have "parentsLoop selfLoopStore (mk (Num 1) (Some (Num 1)) ''a'') acc = None" for acc
    by (rule parentsLoop_self_None [where p = "Num 1"]) (simp_all add: g, simp add: mk_def)
  with g show ?thesis by (simp add: getAllParents_def)
qed

section \<open>Termination of the two traversals\<close>

lemma generation_list_bound:
  "(\<forall>c \<in> set cs. \<exists>n. generation cm [c] n = []) \<Longrightarrow> \<exists>n. generation cm cs n = []"
proof (induction cs)
  case Nil
  then show ?case by simp
next
  case (Cons c cs)
  then obtain n m where n: "generation cm [c] n = []" and m: "generation cm cs m = []"
    by auto
  have "generation cm [c] (max n m) = []" using n by (rule generation_empty_mono) simp
  moreover have "generation cm cs (max n m) = []" using m by (rule generation_empty_mono) simp
  ultimately have "generation cm ([c] @ cs) (max n m) = []"
    by (simp only: generation_append) simp
  then show ?case by auto
qed

lemma generation_runs_out:
  assumes "wf (childRel s)"
  shows "\<exists>n. generation (childrenMap s) q n = []"
proof -
  have one: "\<exists>n. generation (childrenMap s) [x] n = []" if "item_id x = j" for j x
    using assms that
  proof (induction j arbitrary: x rule: wf_induct_rule)
    case (less j)
    have "\<forall>c \<in> set (childrenOf (childrenMap s) j). \<exists>n. generation (childrenMap s) [c] n = []"
    proof
      fix c assume "c \<in> set (childrenOf (childrenMap s) j)"
      then have "(item_id c, j) \<in> childRel s" by (simp add: childRel_def getChildren_def)
      from less.IH [OF this refl] show "\<exists>n. generation (childrenMap s) [c] n = []" .
    qed
    then obtain n where "generation (childrenMap s) (childrenOf (childrenMap s) j) n = []"
      using generation_list_bound by blast
    with less.prems have "generation (childrenMap s) [x] (Suc n) = []"
      by (simp only: generation_shift) (simp add: nextGen_def)
    then show ?case by blast
  qed
  then have "\<forall>x \<in> set q. \<exists>n. generation (childrenMap s) [x] n = []" by blast
  then show ?thesis by (rule generation_list_bound)
qed

lemma getAllChildren_terminates:
  assumes "acyclic (childRel s)"
  shows "\<exists>n. generation (childrenMap s) (getChildren s k) n = [] \<and>
             getAllChildren s k = Some (levels (childrenMap s) (getChildren s k) n)"
proof -
  from assms have "wf (childRel s)" by (simp add: finite_acyclic_wf finite_childRel)
  then obtain n where n: "generation (childrenMap s) (getChildren s k) n = []"
    using generation_runs_out by blast
  from bfsLoop_if_generation_empty [OF this, of "[]"] n show ?thesis
    by (auto simp: getAllChildren_def)
qed

text \<open>
  Claim C9, as the code has it.  In a store whose parent links are acyclic and whose child
  index is acyclic too, both traversals return for every identifier: the queue of
  \<open>getAllChildren\<close> runs empty, and the walk of \<open>getAllParents\<close> reaches an item whose parent
  is null or not stored.  Neither loop has a revisit guard.
\<close>

theorem traversals_terminate:
  assumes "acyclicParents s" and "acyclic (childRel s)"
  shows "(\<exists>ds. getAllChildren s k = Some ds) \<and>
         (\<exists>ps. getAllParents s k = Some ps \<and> (ps \<noteq> [] \<longrightarrow> ancestorChain s ps))"
proof -
  from getAllChildren_terminates [OF assms(2), of k]
  have a: "\<exists>ds. getAllChildren s k = Some ds" by blast
  from assms(1) have wf: "wf ((parentRel s)\<inverse>)"
    by (simp add: acyclicParents_def finite_acyclic_wf_converse finite_parentRel)
  have b: "\<exists>ps. getAllParents s k = Some ps \<and> (ps \<noteq> [] \<longrightarrow> ancestorChain s ps)"
  proof (cases "getItem s k")
    case None
    then show ?thesis by (simp add: getAllParents_def)
  next
    case (Some x)
    from parentsLoop_chain [OF wf Some, of "[x]"] Some show ?thesis
      by (auto simp: getAllParents_def)
  qed
  from a b show ?thesis by (rule conjI)
qed

theorem traversals_terminate_witness:
  "acyclicParents fixture \<and> acyclic (childRel fixture) \<and>
   (\<exists>ds. getAllChildren fixture (Num 1) = Some ds) \<and>
   (\<exists>ps. getAllParents fixture (Num 7) = Some ps)"
proof -
  from traversals_terminate [OF fixture_acyclicParents fixture_acyclic_childRel, of "Num 1"]
  have 1: "\<exists>ds. getAllChildren fixture (Num 1) = Some ds" by blast
  from traversals_terminate [OF fixture_acyclicParents fixture_acyclic_childRel, of "Num 7"]
  have 2: "\<exists>ps. getAllParents fixture (Num 7) = Some ps" by blast
  from fixture_acyclicParents fixture_acyclic_childRel 1 2 show ?thesis by (intro conjI)
qed

text \<open>
  On \<open>shadowedLoopStore\<close> the only stored item is a root, so no chain of parent links comes
  back to its start; the child list of 1 still holds the entry that names 1 as its parent,
  and the queue of \<open>getAllChildren\<close> never runs empty.
\<close>

theorem getAllChildren_no_return_counterexample:
  "acyclicParents shadowedLoopStore \<and> getAllChildren shadowedLoopStore (Num 1) = None"
proof -
  have "parentRel shadowedLoopStore = {}"
    by (auto simp: parentRel_def getItem_def shadowedLoopStore_unfold mk_def split: if_splits)
  then have "acyclicParents shadowedLoopStore" by (simp add: acyclicParents_def acyclic_def)
  with shadowedLoop_getAllChildren show ?thesis by simp
qed

section \<open>What the queue loop collects\<close>

lemma ids_nextGen:
  "item_id ` set (nextGen (childrenMap s) g) = {d. \<exists>j \<in> item_id ` set g. (d, j) \<in> childRel s}"
  by (auto simp: nextGen_def childRel_def getChildren_def)

lemma ids_generation:
  "item_id ` set (generation (childrenMap s) (getChildren s k) n)
   = {d. (d, k) \<in> childRel s ^^ Suc n}"
proof (induction n)
  case 0
  show ?case by (auto simp: childRel_def)
next
  case (Suc n)
  have "item_id ` set (generation (childrenMap s) (getChildren s k) (Suc n))
        = {d. \<exists>j. (j, k) \<in> childRel s ^^ Suc n \<and> (d, j) \<in> childRel s}"
    by (simp only: generation.simps ids_nextGen Suc) auto
  also have "\<dots> = {d. (d, k) \<in> childRel s ^^ Suc (Suc n)}"
  proof (intro Collect_cong iffI)
    fix d assume "\<exists>j. (j, k) \<in> childRel s ^^ Suc n \<and> (d, j) \<in> childRel s"
    then show "(d, k) \<in> childRel s ^^ Suc (Suc n)" by (blast intro: relpow_Suc_I2)
  next
    fix d assume "(d, k) \<in> childRel s ^^ Suc (Suc n)"
    then show "\<exists>j. (j, k) \<in> childRel s ^^ Suc n \<and> (d, j) \<in> childRel s"
      by (blast dest: relpow_Suc_D2)
  qed
  finally show ?case .
qed

lemma set_levels: "set (levels cm q n) = (\<Union>i<n. set (generation cm q i))"
  by (induction n) (auto simp: levels_Suc lessThan_Suc)

lemma getAllChildren_levels:
  "getAllChildren s k = Some ds \<longleftrightarrow>
     (\<exists>n. generation (childrenMap s) (getChildren s k) n = [] \<and>
          ds = levels (childrenMap s) (getChildren s k) n)"
  by (simp add: getAllChildren_def bfsLoop_Some_iff)

lemma getAllChildren_ids:
  assumes "getAllChildren s k = Some ds"
  shows "item_id ` set ds = {d. (d, k) \<in> (childRel s)\<^sup>+}"
proof -
  from assms obtain n where n: "generation (childrenMap s) (getChildren s k) n = []"
    and ds: "ds = levels (childrenMap s) (getChildren s k) n"
    by (auto simp: getAllChildren_levels)
  have ids: "item_id ` set ds = (\<Union>i<n. {d. (d, k) \<in> childRel s ^^ Suc i})"
    unfolding ds set_levels image_UN ids_generation ..
  have none: "{d. (d, k) \<in> childRel s ^^ Suc m} = {}" if "n \<le> m" for m
  proof -
    from n that have "generation (childrenMap s) (getChildren s k) m = []"
      by (rule generation_empty_mono)
    with ids_generation [of s k m] show ?thesis by simp
  qed
  show ?thesis
  proof (intro set_eqI iffI)
    fix d assume "d \<in> item_id ` set ds"
    with ids obtain i where "(d, k) \<in> childRel s ^^ Suc i" by auto
    then have "\<exists>m>0. (d, k) \<in> childRel s ^^ m" by blast
    then show "d \<in> {d. (d, k) \<in> (childRel s)\<^sup>+}" by (simp add: trancl_power)
  next
    fix d assume "d \<in> {d. (d, k) \<in> (childRel s)\<^sup>+}"
    then obtain m where m: "m > 0" "(d, k) \<in> childRel s ^^ m" by (auto simp: trancl_power)
    then obtain i where i: "m = Suc i" by (cases m) auto
    with m none [of i] have "i < n" by (cases "i < n") auto
    with m i ids show "d \<in> item_id ` set ds" by auto
  qed
qed

section \<open>The descendant closure under the invariants\<close>

lemma parentRel_single_valued: "single_valued (parentRel s)"
  by (auto simp: single_valued_def parentRel_def)

lemma invariants_parentRel_childRel:
  assumes "uniqueIds s" and "indexInverse s"
  shows "childRel s = parentRel s"
proof
  show "childRel s \<subseteq> parentRel s" using assms(2) by (rule indexInverse_childRel)
  show "parentRel s \<subseteq> childRel s"
  proof
    fix e assume "e \<in> parentRel s"
    then obtain k p where e: "e = (k, p)" and "(k, p) \<in> parentRel s" by (cases e) auto
    from parentRel_in_items [OF this(2)] obtain x where
      x: "(k, x) \<in> set (items s)" "parent x = Some p" by blast
    with assms have "item_id x = k" "x \<in> set (getChildren s p)"
      by (auto simp: uniqueIds_def indexInverse_def)
    with e show "e \<in> childRel s" by (auto simp: childRel_def)
  qed
qed

lemma relpow_deterministic:
  assumes "single_valued R"
  shows "(d, a) \<in> R ^^ m \<Longrightarrow> (d, b) \<in> R ^^ (m + l) \<Longrightarrow> (a, b) \<in> R ^^ l"
proof (induction m arbitrary: d)
  case 0
  then show ?case by simp
next
  case (Suc m)
  from Suc.prems(1) obtain y where y: "(d, y) \<in> R" "(y, a) \<in> R ^^ m"
    by (blast dest: relpow_Suc_D2)
  from Suc.prems(2) have "(d, b) \<in> R ^^ Suc (m + l)" by simp
  then obtain y' where y': "(d, y') \<in> R" "(y', b) \<in> R ^^ (m + l)"
    by (blast dest: relpow_Suc_D2)
  from assms y(1) y'(1) have "y' = y" by (auto simp: single_valued_def)
  with y(2) y'(2) show ?case by (auto intro: Suc.IH)
qed

lemma childrenOf_distinct:
  "childListsDistinct s \<Longrightarrow> distinct (map item_id (childrenOf (childrenMap s) j))"
proof (cases "map_of (childrenMap s) j")
  case None
  then show ?thesis by (simp add: childrenOf_def)
next
  case (Some cs)
  assume d: "childListsDistinct s"
  from Some have "(j, cs) \<in> set (childrenMap s)" by (rule map_of_SomeD)
  with d Some show ?thesis by (auto simp: childListsDistinct_def childrenOf_def)
qed

lemma nextGen_distinct:
  assumes "childListsDistinct s" and "single_valued (childRel s)"
  shows "distinct (map item_id g) \<Longrightarrow> distinct (map item_id (nextGen (childrenMap s) g))"
proof (induction g)
  case Nil
  show ?case by simp
next
  case (Cons x g)
  have "item_id ` set (childrenOf (childrenMap s) (item_id x))
        \<inter> item_id ` set (nextGen (childrenMap s) g) = {}"
  proof (rule ccontr)
    assume "\<not> ?thesis"
    then obtain d where 1: "d \<in> item_id ` set (childrenOf (childrenMap s) (item_id x))"
      and 2: "d \<in> item_id ` set (nextGen (childrenMap s) g)" by blast
    from 1 have a: "(d, item_id x) \<in> childRel s" by (simp add: childRel_def getChildren_def)
    from 2 obtain j where j: "j \<in> item_id ` set g" "(d, j) \<in> childRel s"
      by (auto simp: ids_nextGen)
    from assms(2) a j(2) have "j = item_id x" by (auto simp: single_valued_def)
    with j(1) Cons.prems show False by simp
  qed
  with Cons childrenOf_distinct [OF assms(1), of "item_id x"] show ?case
    by (simp add: nextGen_Cons)
qed

lemma generation_distinct:
  assumes "childListsDistinct s" and "single_valued (childRel s)"
  shows "distinct (map item_id (generation (childrenMap s) (getChildren s k) n))"
proof (induction n)
  case 0
  from childrenOf_distinct [OF assms(1), of k] show ?case by (simp add: getChildren_def)
next
  case (Suc n)
  then show ?case by (simp add: nextGen_distinct [OF assms])
qed

lemma levels_distinct:
  assumes "childListsDistinct s" and "single_valued (childRel s)" and "acyclic (childRel s)"
  shows "distinct (map item_id (levels (childrenMap s) (getChildren s k) n))"
proof (induction n)
  case 0
  show ?case by simp
next
  case (Suc n)
  let ?g = "generation (childrenMap s) (getChildren s k)"
  have "item_id ` set (levels (childrenMap s) (getChildren s k) n) \<inter> item_id ` set (?g n) = {}"
  proof (rule ccontr)
    assume "\<not> ?thesis"
    then obtain d i where i: "i < n" "d \<in> item_id ` set (?g i)" and n: "d \<in> item_id ` set (?g n)"
      by (auto simp: set_levels)
    from i(2) have a: "(d, k) \<in> childRel s ^^ Suc i" using ids_generation [of s k i] by simp
    from n have "(d, k) \<in> childRel s ^^ Suc n" using ids_generation [of s k n] by simp
    with i(1) have "(d, k) \<in> childRel s ^^ (Suc i + (n - i))" by simp
    from relpow_deterministic [OF assms(2) a this] have "(k, k) \<in> childRel s ^^ (n - i)" .
    moreover from i(1) have "0 < n - i" by simp
    ultimately have "(k, k) \<in> (childRel s)\<^sup>+" unfolding trancl_power by blast
    with assms(3) show False by (simp add: acyclic_def)
  qed
  with Suc generation_distinct [OF assms(1,2), of k n] show ?case
    by (simp add: levels_Suc)
qed

lemma listed_is_stored:
  assumes "indexInverse s" and "x \<in> set (getChildren s p)"
  shows "getItem s (item_id x) = Some x \<and> parent x = Some p"
proof -
  from assms(2) obtain cs where m: "map_of (childrenMap s) p = Some cs" and "x \<in> set cs"
    by (cases "map_of (childrenMap s) p") (auto simp: getChildren_def childrenOf_def)
  from m have "(p, cs) \<in> set (childrenMap s)" by (rule map_of_SomeD)
  with assms(1) \<open>x \<in> set cs\<close> show ?thesis by (auto simp: indexInverse_def)
qed

lemma generation_listed:
  "x \<in> set (generation (childrenMap s) (getChildren s k) n) \<Longrightarrow> \<exists>p. x \<in> set (getChildren s p)"
  by (cases n) (auto simp: nextGen_def getChildren_def)

lemma unknown_has_no_children:
  assumes "parentsExist s" and "indexInverse s" and "getItem s k = None"
  shows "getChildren s k = []"
proof (rule ccontr)
  assume "getChildren s k \<noteq> []"
  then obtain x where "x \<in> set (getChildren s k)" by (cases "getChildren s k") auto
  from listed_is_stored [OF assms(2) this] have x: "getItem s (item_id x) = Some x"
    "parent x = Some k" by simp_all
  from x(1) have "(item_id x, x) \<in> set (items s)" by (auto simp: getItem_def dest: map_of_SomeD)
  with assms(1) x(2) have "has (items s) k" by (auto simp: parentsExist_def)
  with assms(3) show False by (simp add: has_map_of getItem_def)
qed


text \<open>
  Claim C5, as the code has it.  In a store that satisfies the four invariants and whose child
  lists name no identifier twice, \<open>getAllChildren\<close> returns for every identifier.  The result
  is in level order: the child list of the identifier, then the child lists of those children
  in their order, and so on, generation after generation, until a generation is empty.  Its
  items are exactly the stored items that have the identifier among their ancestors, and no
  identifier occurs in it twice.  It is empty for an identifier without children and for an
  identifier that is not stored.  On the fixture, the descendants of 1 are A, 3, 4, 5, 6, 7, 8
  in this order.
\<close>

theorem getAllChildren_closure:
  assumes "invariants s" and "childListsDistinct s"
  shows "(\<exists>n. generation (childrenMap s) (getChildren s k) n = [] \<and>
              getAllChildren s k = Some (levels (childrenMap s) (getChildren s k) n)) \<and>
         (\<forall>ds. getAllChildren s k = Some ds \<longrightarrow>
              set ds = {x. getItem s (item_id x) = Some x \<and> (item_id x, k) \<in> (parentRel s)\<^sup>+} \<and>
              distinct (map item_id ds)) \<and>
         (getChildren s k = [] \<longrightarrow> getAllChildren s k = Some []) \<and>
         (getItem s k = None \<longrightarrow> getAllChildren s k = Some []) \<and>
         map_option (map item_id) (getAllChildren fixture (Num 1))
           = Some [A, Num 3, Num 4, Num 5, Num 6, Num 7, Num 8]"
proof -
  from assms(1) have u: "uniqueIds s" and pe: "parentsExist s" and ac: "acyclicParents s"
    and ii: "indexInverse s" by (simp_all add: invariants_def)
  from u ii have eq: "childRel s = parentRel s" by (rule invariants_parentRel_childRel)
  from ac eq have acc: "acyclic (childRel s)" by (simp add: acyclicParents_def)
  from eq have sv: "single_valued (childRel s)" by (simp add: parentRel_single_valued)
  have a: "\<exists>n. generation (childrenMap s) (getChildren s k) n = [] \<and>
              getAllChildren s k = Some (levels (childrenMap s) (getChildren s k) n)"
    using acc by (rule getAllChildren_terminates)
  have b: "\<forall>ds. getAllChildren s k = Some ds \<longrightarrow>
              set ds = {x. getItem s (item_id x) = Some x \<and> (item_id x, k) \<in> (parentRel s)\<^sup>+} \<and>
              distinct (map item_id ds)"
  proof (intro allI impI)
    fix ds assume g: "getAllChildren s k = Some ds"
    then obtain n where ds: "ds = levels (childrenMap s) (getChildren s k) n"
      by (auto simp: getAllChildren_levels)
    from getAllChildren_ids [OF g] eq
    have ids: "item_id ` set ds = {d. (d, k) \<in> (parentRel s)\<^sup>+}" by simp
    have stored: "getItem s (item_id x) = Some x" if "x \<in> set ds" for x
    proof -
      from that ds obtain i where "x \<in> set (generation (childrenMap s) (getChildren s k) i)"
        by (auto simp: set_levels)
      then obtain p where "x \<in> set (getChildren s p)" using generation_listed by blast
      from listed_is_stored [OF ii this] show ?thesis by simp
    qed
    have "set ds = {x. getItem s (item_id x) = Some x \<and> (item_id x, k) \<in> (parentRel s)\<^sup>+}"
    proof (intro set_eqI iffI)
      fix x assume "x \<in> set ds"
      with stored ids show "x \<in> {x. getItem s (item_id x) = Some x \<and>
                                 (item_id x, k) \<in> (parentRel s)\<^sup>+}" by blast
    next
      fix x assume "x \<in> {x. getItem s (item_id x) = Some x \<and> (item_id x, k) \<in> (parentRel s)\<^sup>+}"
      then have x: "getItem s (item_id x) = Some x" "(item_id x, k) \<in> (parentRel s)\<^sup>+" by simp_all
      from x(2) ids have "item_id x \<in> item_id ` set ds" by simp
      then obtain y where y: "y \<in> set ds" "item_id y = item_id x" by (auto simp: image_iff)
      from stored [OF y(1)] y(2) x(1) have "y = x" by simp
      with y(1) show "x \<in> set ds" by simp
    qed
    moreover from levels_distinct [OF assms(2) sv acc, of k n] ds
    have "distinct (map item_id ds)" by simp
    ultimately show "set ds = {x. getItem s (item_id x) = Some x \<and>
                                  (item_id x, k) \<in> (parentRel s)\<^sup>+} \<and>
                     distinct (map item_id ds)" by (rule conjI)
  qed
  have c: "getChildren s k = [] \<longrightarrow> getAllChildren s k = Some []"
    by (simp add: getAllChildren_def bfsLoop_Nil)
  have d: "getItem s k = None \<longrightarrow> getAllChildren s k = Some []"
    using unknown_has_no_children [OF pe ii] c by blast
  have e: "map_option (map item_id) (getAllChildren fixture (Num 1))
           = Some [A, Num 3, Num 4, Num 5, Num 6, Num 7, Num 8]"
    by (simp add: eval_simps)
  from a b c d e show ?thesis by (intro conjI)
qed

theorem getAllChildren_closure_witness:
  "invariants fixture \<and> childListsDistinct fixture \<and>
   (\<exists>n. getAllChildren fixture A = Some (levels (childrenMap fixture) (getChildren fixture A) n)) \<and>
   getItem fixture (Num 999) = None \<and> getAllChildren fixture (Num 999) = Some [] \<and>
   getChildren fixture (Num 7) = [] \<and> getAllChildren fixture (Num 7) = Some []"
proof -
  note t = getAllChildren_closure [OF fixture_invariants fixture_childListsDistinct]
  have h: "getItem fixture (Num 999) = None" "getChildren fixture (Num 7) = []"
    by (simp_all add: eval_simps)
  from t [of A]
  have 1: "\<exists>n. getAllChildren fixture A = Some (levels (childrenMap fixture) (getChildren fixture A) n)"
    by blast
  from t [of "Num 999"] h(1) have 2: "getAllChildren fixture (Num 999) = Some []" by blast
  from t [of "Num 7"] h(2) have 3: "getAllChildren fixture (Num 7) = Some []" by blast
  from fixture_invariants fixture_childListsDistinct 1 h(1) 2 h(2) 3 show ?thesis
    by (intro conjI)
qed

lemma twiceListedStore_unfold:
  "twiceListedStore =
     \<lparr> items = [(Num 1, mk (Num 1) None ''r''), (Num 2, mk (Num 2) (Some (Num 1)) ''c'')],
       childrenMap = [(Num 1, [mk (Num 2) (Some (Num 1)) ''c'', mk (Num 2) (Some (Num 1)) ''c''])] \<rparr>"
  by (simp add: twiceListedStore_def constructor_def initialize_def mk_def pushChild_def
      childrenOf_def)

lemma twiceListedStore_invariants: "invariants twiceListedStore"
proof -
  have "uniqueIds twiceListedStore" by (simp add: uniqueIds_def twiceListedStore_unfold mk_def)
  moreover have "parentsExist twiceListedStore"
    by (simp add: parentsExist_def has_def twiceListedStore_unfold mk_def)
  moreover have "indexInverse twiceListedStore"
    by (simp add: indexInverse_def getItem_def getChildren_def childrenOf_def
        twiceListedStore_unfold mk_def)
  moreover have "acyclicParents twiceListedStore"
    unfolding acyclicParents_def
  proof (rule acyclic_ranked [where f = "\<lambda>k. if k = Num 1 then 1 else (0::nat)"])
    fix a b assume "(a, b) \<in> parentRel twiceListedStore"
    from parentRel_in_items [OF this]
    show "(if a = Num 1 then 1 else (0::nat)) < (if b = Num 1 then 1 else 0)"
      by (auto simp: twiceListedStore_unfold mk_def)
  qed
  ultimately show ?thesis by (simp add: invariants_def)
qed

text \<open>
  \<open>twiceListedStore\<close> satisfies the four invariants: the one child is stored, its parent is
  the stored root, and it is an entry of the root's child list.  It is an entry twice, and
  the traversal emits it twice.
\<close>

theorem getAllChildren_twice_counterexample:
  "invariants twiceListedStore \<and>
   getAllChildren twiceListedStore (Num 1)
     = Some [mk (Num 2) (Some (Num 1)) ''c'', mk (Num 2) (Some (Num 1)) ''c'']"
proof -
  have "getAllChildren twiceListedStore (Num 1)
     = Some [mk (Num 2) (Some (Num 1)) ''c'', mk (Num 2) (Some (Num 1)) ''c'']"
    by (simp add: getAllChildren_def getChildren_def childrenOf_def twiceListedStore_unfold mk_def
        bfsLoop_Nil bfsLoop_Cons)
  with twiceListedStore_invariants show ?thesis by simp
qed

section \<open>Construction from unchecked input\<close>

lemma find_in_append:
  "List.find P (xs @ ys) = (case List.find P xs of None \<Rightarrow> List.find P ys | Some x \<Rightarrow> Some x)"
  by (induction xs) auto

lemma fold_update_lookup:
  "map_of (fold (\<lambda>item m. AList.update (item_id item) item m) xs m) k
   = (case List.find (\<lambda>x. item_id x = k) (rev xs) of None \<Rightarrow> map_of m k | Some x \<Rightarrow> Some x)"
proof (induction xs arbitrary: m)
  case Nil
  show ?case by simp
next
  case (Cons x xs)
  show ?case
    by (cases "List.find (\<lambda>x. item_id x = k) (rev xs)")
       (simp_all add: Cons find_in_append update_conv')
qed

lemma update_entries: "e \<in> set (AList.update k v m) \<Longrightarrow> e = (k, v) \<or> e \<in> set m"
  by (induction m) (auto split: if_splits)

lemma fold_update_keyed:
  "(\<forall>(k, x) \<in> set m. item_id x = k) \<Longrightarrow>
   (\<forall>(k, x) \<in> set (fold (\<lambda>item m. AList.update (item_id item) item m) xs m). item_id x = k)"
proof (induction xs arbitrary: m)
  case Nil
  then show ?case by simp
next
  case (Cons x xs)
  have "\<forall>(k, y) \<in> set (AList.update (item_id x) x m). item_id y = k"
    using Cons.prems by (auto dest: update_entries)
  from Cons.IH [OF this] show ?case by simp
qed

lemma fold_update_keys:
  "distinct (map fst m) \<Longrightarrow>
   distinct (map fst (fold (\<lambda>item m. AList.update (item_id item) item m) xs m)) \<and>
   fst ` set (fold (\<lambda>item m. AList.update (item_id item) item m) xs m)
     = fst ` set m \<union> item_id ` set xs"
proof (induction xs arbitrary: m)
  case Nil
  then show ?case by simp
next
  case (Cons x xs)
  from Cons.prems have "distinct (map fst (AList.update (item_id x) x m))"
    by (rule distinct_update)
  from Cons.IH [OF this] show ?case by (auto simp: dom_update)
qed

lemma constructor_items:
  "items (constructor xs) = fold (\<lambda>item m. AList.update (item_id item) item m) xs []"
  by (simp add: constructor_def initialize_def)

lemma fold_pushChild_keys:
  "distinct (map fst cm) \<Longrightarrow>
   distinct (map fst (fold (\<lambda>item cm. case parent item of None \<Rightarrow> cm
                                           | Some parentId \<Rightarrow> pushChild cm parentId item) xs cm))"
proof (induction xs arbitrary: cm)
  case Nil
  then show ?case by simp
next
  case (Cons x xs)
  show ?case
  proof (cases "parent x")
    case None
    with Cons show ?thesis by simp
  next
    case (Some p)
    from Cons.prems have "distinct (map fst (pushChild cm p x))"
      unfolding pushChild_def by (rule distinct_update)
    from Cons.IH [OF this] Some show ?thesis by simp
  qed
qed

lemma constructor_uniqueIds: "uniqueIds (constructor xs)"
  using fold_update_keys [of "[]" xs] fold_update_keyed [of "[]" xs]
    fold_pushChild_keys [of "[]" xs]
  by (simp add: uniqueIds_def constructor_items) (simp add: constructor_def initialize_def)

lemma keyed_getAll_ids:
  "\<forall>(k, x) \<in> set m. item_id x = k \<Longrightarrow> map item_id (map snd m) = map fst m"
  by (induction m) auto

lemma fold_pushChild_children:
  "childrenOf (fold (\<lambda>item cm. case parent item of None \<Rightarrow> cm
                                 | Some parentId \<Rightarrow> pushChild cm parentId item) xs cm) p
   = childrenOf cm p @ filter (\<lambda>x. parent x = Some p) xs"
proof (induction xs arbitrary: cm)
  case Nil
  show ?case by simp
next
  case (Cons x xs)
  show ?case by (cases "parent x") (simp_all add: Cons childrenOf_pushChild)
qed

lemma constructor_children:
  "getChildren (constructor xs) p = filter (\<lambda>x. parent x = Some p) xs"
  using fold_pushChild_children [of xs "[]" p]
  by (simp add: getChildren_def constructor_def initialize_def childrenOf_def)

section \<open>How often the queue loop emits a child\<close>

lemma nextGen_levels: "nextGen cm (levels cm q n) = levels cm (nextGen cm q) n"
proof (induction n)
  case 0
  show ?case by simp
next
  case (Suc n)
  have "nextGen cm (levels cm q (Suc n)) = nextGen cm (levels cm q n) @ generation cm q (Suc n)"
    by (simp add: levels_Suc nextGen_append)
  also have "\<dots> = levels cm (nextGen cm q) n @ generation cm (nextGen cm q) n"
    by (simp only: Suc generation_shift)
  also have "\<dots> = levels cm (nextGen cm q) (Suc n)"
    by (simp only: levels_Suc)
  finally show ?case .
qed

lemma getAllChildren_unfold:
  assumes "getAllChildren s a = Some ds"
  shows "ds = getChildren s a @ nextGen (childrenMap s) ds"
proof -
  let ?cm = "childrenMap s" and ?q = "getChildren s a"
  from assms obtain n where n: "generation ?cm ?q n = []" and ds: "ds = levels ?cm ?q n"
    by (auto simp: getAllChildren_levels)
  from n have "levels ?cm ?q (Suc n) = ds" by (simp add: levels_Suc ds)
  moreover have "levels ?cm ?q (Suc n) = ?q @ nextGen ?cm ds"
    by (simp only: levels_Suc_shift nextGen_levels ds)
  ultimately show ?thesis by simp
qed

lemma occurrences_nextGen_sum:
  "length (filter P (nextGen cm g))
   = sum_list (map (\<lambda>y. length (filter P (childrenOf cm (item_id y)))) g)"
  by (induction g) (simp_all add: nextGen_Cons)

lemma getAllChildren_count:
  assumes "getAllChildren s a = Some ds"
  shows "length (filter P ds)
         = length (filter P (getChildren s a))
           + sum_list (map (\<lambda>y. length (filter P (getChildren s (item_id y)))) ds)"
proof -
  from getAllChildren_unfold [OF assms]
  have "length (filter P ds) = length (filter P (getChildren s a @ nextGen (childrenMap s) ds))"
    by simp
  then show ?thesis by (simp add: occurrences_nextGen_sum getChildren_def)
qed

text \<open>
  Claim C10, as the code has it.  For every input list, the constructed store keeps under an
  identifier the last input entry with that identifier, \<open>getAll\<close> reports every identifier of
  the input once, and the child list of a parent holds the input entries that name this
  parent, one per entry and in input order.  \<open>getAllChildren\<close> of an identifier returns
  when the child lists built from the input contain no loop, and whenever it returns, its
  result is the input entries under that identifier followed, for each item of the result
  in turn, by the input entries under that item; so it holds an identifier once for each input
  entry with that identifier under the starting identifier, and once more for each input entry
  with that identifier under an emitted item, counted as often as that item is emitted.
\<close>

theorem constructor_repeated_identifier:
  "getItem (constructor xs) k = List.find (\<lambda>x. item_id x = k) (rev xs) \<and>
   distinct (map item_id (getAll (constructor xs))) \<and>
   item_id ` set (getAll (constructor xs)) = item_id ` set xs \<and>
   getChildren (constructor xs) p = filter (\<lambda>x. parent x = Some p) xs \<and>
   (acyclic (childRel (constructor xs)) \<longrightarrow> (\<exists>r. getAllChildren (constructor xs) a = Some r)) \<and>
   (getAllChildren (constructor xs) a = Some ds \<longrightarrow>
      ds = filter (\<lambda>x. parent x = Some a) xs
           @ concat (map (\<lambda>y. filter (\<lambda>x. parent x = Some (item_id y)) xs) ds) \<and>
      length (filter (\<lambda>x. item_id x = k) ds)
        = length (filter (\<lambda>x. item_id x = k \<and> parent x = Some a) xs)
          + sum_list (map (\<lambda>y. length (filter (\<lambda>x. item_id x = k \<and> parent x = Some (item_id y)) xs))
                          ds))"
proof -
  have a: "getItem (constructor xs) k = List.find (\<lambda>x. item_id x = k) (rev xs)"
    by (cases "List.find (\<lambda>x. item_id x = k) (rev xs)")
       (simp_all add: getItem_def constructor_items fold_update_lookup)
  from constructor_uniqueIds [of xs]
  have dist: "distinct (map fst (items (constructor xs)))"
    and keyed: "\<forall>(k, x) \<in> set (items (constructor xs)). item_id x = k"
    by (simp_all add: uniqueIds_def)
  from keyed have ids: "map item_id (getAll (constructor xs)) = map fst (items (constructor xs))"
    unfolding getAll_def by (rule keyed_getAll_ids)
  from ids dist have b: "distinct (map item_id (getAll (constructor xs)))" by simp
  have "set (map item_id (getAll (constructor xs))) = item_id ` set xs"
    unfolding ids using fold_update_keys [of "[]" xs] by (simp add: constructor_items)
  then have c: "item_id ` set (getAll (constructor xs)) = item_id ` set xs" by simp
  have d: "getChildren (constructor xs) p = filter (\<lambda>x. parent x = Some p) xs" for p
    by (rule constructor_children)
  have t: "acyclic (childRel (constructor xs)) \<longrightarrow>
           (\<exists>r. getAllChildren (constructor xs) a = Some r)"
    using getAllChildren_terminates [of "constructor xs" a] by blast
  have e: "getAllChildren (constructor xs) a = Some ds \<longrightarrow>
      ds = filter (\<lambda>x. parent x = Some a) xs
           @ concat (map (\<lambda>y. filter (\<lambda>x. parent x = Some (item_id y)) xs) ds) \<and>
      length (filter (\<lambda>x. item_id x = k) ds)
        = length (filter (\<lambda>x. item_id x = k \<and> parent x = Some a) xs)
          + sum_list (map (\<lambda>y. length (filter (\<lambda>x. item_id x = k \<and> parent x = Some (item_id y)) xs))
                          ds)"
  proof
    assume g: "getAllChildren (constructor xs) a = Some ds"
    from getAllChildren_unfold [OF g]
    have 1: "ds = filter (\<lambda>x. parent x = Some a) xs
           @ concat (map (\<lambda>y. filter (\<lambda>x. parent x = Some (item_id y)) xs) ds)"
      by (simp add: d nextGen_def getChildren_def [symmetric])
    from getAllChildren_count [OF g, of "\<lambda>x. item_id x = k"]
    have 2: "length (filter (\<lambda>x. item_id x = k) ds)
        = length (filter (\<lambda>x. item_id x = k \<and> parent x = Some a) xs)
          + sum_list (map (\<lambda>y. length (filter (\<lambda>x. item_id x = k \<and> parent x = Some (item_id y)) xs))
                          ds)"
      by (simp add: d conj_commute)
    from 1 2 show "ds = filter (\<lambda>x. parent x = Some a) xs
           @ concat (map (\<lambda>y. filter (\<lambda>x. parent x = Some (item_id y)) xs) ds) \<and>
      length (filter (\<lambda>x. item_id x = k) ds)
        = length (filter (\<lambda>x. item_id x = k \<and> parent x = Some a) xs)
          + sum_list (map (\<lambda>y. length (filter (\<lambda>x. item_id x = k \<and> parent x = Some (item_id y)) xs))
                          ds)"
      by (rule conjI)
  qed
  from a b c d [of p] t e show ?thesis by (intro conjI)
qed

lemma repeatedInput_store:
  "constructor repeatedInput =
     \<lparr> items = [(Num 2, mk (Num 2) (Some (Num 1)) ''b''), (Num 3, mk (Num 3) (Some (Num 2)) ''d'')],
       childrenMap =
         [(Num 1, [mk (Num 2) (Some (Num 1)) ''a'', mk (Num 2) (Some (Num 1)) ''b'']),
          (Num 2, [mk (Num 3) (Some (Num 2)) ''c'', mk (Num 3) (Some (Num 2)) ''d''])] \<rparr>"
  by (simp add: repeatedInput_def constructor_def initialize_def mk_def pushChild_def
      childrenOf_def)

lemma repeatedInput_descendants:
  "getAllChildren (constructor repeatedInput) (Num 1) =
     Some [mk (Num 2) (Some (Num 1)) ''a'', mk (Num 2) (Some (Num 1)) ''b'',
           mk (Num 3) (Some (Num 2)) ''c'', mk (Num 3) (Some (Num 2)) ''d'',
           mk (Num 3) (Some (Num 2)) ''c'', mk (Num 3) (Some (Num 2)) ''d'']"
  by (simp add: getAllChildren_def getChildren_def childrenOf_def repeatedInput_store mk_def
      bfsLoop_Nil bfsLoop_Cons)

lemma repeatedInput_acyclic: "acyclic (childRel (constructor repeatedInput))"
proof (rule acyclic_ranked [where f = "\<lambda>k. if k = Num 1 then 2 else if k = Num 2 then 1 else (0::nat)"])
  fix a b assume "(a, b) \<in> childRel (constructor repeatedInput)"
  from childRel_in_index [OF this]
  show "(if a = Num 1 then 2 else if a = Num 2 then 1 else (0::nat))
        < (if b = Num 1 then 2 else if b = Num 2 then 1 else 0)"
    by (auto simp: repeatedInput_store mk_def)
qed

theorem constructor_repeated_identifier_witness:
  "acyclic (childRel (constructor repeatedInput)) \<and>
   (\<exists>r. getAllChildren (constructor repeatedInput) (Num 1) = Some r) \<and>
   getAllChildren (constructor repeatedInput) (Num 1) =
     Some [mk (Num 2) (Some (Num 1)) ''a'', mk (Num 2) (Some (Num 1)) ''b'',
           mk (Num 3) (Some (Num 2)) ''c'', mk (Num 3) (Some (Num 2)) ''d'',
           mk (Num 3) (Some (Num 2)) ''c'', mk (Num 3) (Some (Num 2)) ''d''] \<and>
   getItem (constructor repeatedInput) (Num 3) = Some (mk (Num 3) (Some (Num 2)) ''d'') \<and>
   map item_id (getAll (constructor repeatedInput)) = [Num 2, Num 3] \<and>
   getChildren (constructor repeatedInput) (Num 2)
     = [mk (Num 3) (Some (Num 2)) ''c'', mk (Num 3) (Some (Num 2)) ''d''] \<and>
   length (filter (\<lambda>x. item_id x = Num 3 \<and> parent x = Some (Num 1)) repeatedInput) = 0 \<and>
   map (\<lambda>y. length (filter (\<lambda>x. item_id x = Num 3 \<and> parent x = Some (item_id y)) repeatedInput))
       [mk (Num 2) (Some (Num 1)) ''a'', mk (Num 2) (Some (Num 1)) ''b'',
        mk (Num 3) (Some (Num 2)) ''c'', mk (Num 3) (Some (Num 2)) ''d'',
        mk (Num 3) (Some (Num 2)) ''c'', mk (Num 3) (Some (Num 2)) ''d'']
     = [2, 2, 0, 0, 0, 0] \<and>
   length (filter (\<lambda>x. item_id x = Num 3)
             [mk (Num 2) (Some (Num 1)) ''a'', mk (Num 2) (Some (Num 1)) ''b'',
              mk (Num 3) (Some (Num 2)) ''c'', mk (Num 3) (Some (Num 2)) ''d'',
              mk (Num 3) (Some (Num 2)) ''c'', mk (Num 3) (Some (Num 2)) ''d''])
     = 4"
proof -
  let ?ds = "[mk (Num 2) (Some (Num 1)) ''a'', mk (Num 2) (Some (Num 1)) ''b'',
              mk (Num 3) (Some (Num 2)) ''c'', mk (Num 3) (Some (Num 2)) ''d'',
              mk (Num 3) (Some (Num 2)) ''c'', mk (Num 3) (Some (Num 2)) ''d'']"
  let ?under = "\<lambda>y. length (filter (\<lambda>x. item_id x = Num 3 \<and> parent x = Some (item_id y))
                                  repeatedInput)"
  note t = constructor_repeated_identifier [of repeatedInput "Num 3" "Num 2" "Num 1" ?ds]
  from t repeatedInput_acyclic
  have 0: "\<exists>r. getAllChildren (constructor repeatedInput) (Num 1) = Some r" by blast
  from t have 1: "getItem (constructor repeatedInput) (Num 3)
                  = List.find (\<lambda>x. item_id x = Num 3) (rev repeatedInput)"
    and 2: "getChildren (constructor repeatedInput) (Num 2)
            = filter (\<lambda>x. parent x = Some (Num 2)) repeatedInput"
    by blast+
  from t repeatedInput_descendants
  have 3: "length (filter (\<lambda>x. item_id x = Num 3) ?ds)
        = length (filter (\<lambda>x. item_id x = Num 3 \<and> parent x = Some (Num 1)) repeatedInput)
          + sum_list (map ?under ?ds)"
    by blast
  have 4: "map item_id (getAll (constructor repeatedInput)) = [Num 2, Num 3]"
    by (simp add: getAll_def repeatedInput_store mk_def)
  from 1 have v1: "getItem (constructor repeatedInput) (Num 3) = Some (mk (Num 3) (Some (Num 2)) ''d'')"
    by (simp add: repeatedInput_def mk_def)
  from 2 have v2: "getChildren (constructor repeatedInput) (Num 2)
     = [mk (Num 3) (Some (Num 2)) ''c'', mk (Num 3) (Some (Num 2)) ''d'']"
    by (simp add: repeatedInput_def mk_def)
  have a: "length (filter (\<lambda>x. item_id x = Num 3 \<and> parent x = Some (Num 1)) repeatedInput) = 0"
    by (simp add: repeatedInput_def mk_def)
  have m: "map ?under ?ds = [2, 2, 0, 0, 0, 0]"
    by (simp add: repeatedInput_def mk_def)
  from 3 have v3: "length (filter (\<lambda>x. item_id x = Num 3) ?ds) = 4"
    unfolding a m by simp
  from repeatedInput_acyclic 0 repeatedInput_descendants v1 4 v2 a m v3 show ?thesis
    by (intro conjI)
qed

text \<open>
  The input \<open>repeatedInput\<close> has two entries for 3, both under 2, and two entries for 2, both
  under 1.  The traversal from 1 emits 2 twice and therefore the two entries for 3 twice
  each: four entries for an identifier that occurs twice in the input.
\<close>

theorem getAllChildren_multiplied_counterexample:
  "length (filter (\<lambda>x. item_id x = Num 3) repeatedInput) = 2 \<and>
   map_option (map item_id) (getAllChildren (constructor repeatedInput) (Num 1))
     = Some [Num 2, Num 2, Num 3, Num 3, Num 3, Num 3]"
  by (simp add: repeatedInput_descendants) (simp add: repeatedInput_def mk_def)

section \<open>How a mutation changes the link relations\<close>

lemma parentRel_after_set:
  assumes "items s' = AList.update k x (items s)"
  shows "parentRel s' = {(j, q). (j, q) \<in> parentRel s \<and> j \<noteq> k} \<union> {(k, p) | p. parent x = Some p}"
  using assms by (auto simp: parentRel_def getItem_def update_conv' split: if_splits)

lemma parentRel_after_set_iff:
  assumes "items s' = AList.update k x (items s)"
  shows "(j, q) \<in> parentRel s' \<longleftrightarrow> (if j = k then parent x = Some q else (j, q) \<in> parentRel s)"
  using assms by (simp add: parentRel_def getItem_def update_conv')

lemma childRel_same:
  assumes "childrenMap s' = childrenMap s"
  shows "childRel s' = childRel s"
  using assms by (simp add: childRel_def getChildren_def)

lemma childRel_after_push:
  assumes "childrenMap s' = pushChild (childrenMap s) p x"
  shows "childRel s' = insert (item_id x, p) (childRel s)"
  using assms by (auto simp: childRel_def getChildren_def childrenOf_pushChild split: if_splits)

lemma childRel_after_relink:
  assumes "childrenMap s' = relink (childrenMap s) e u"
  shows "childRel s' \<subseteq> (case parent u of None \<Rightarrow> childRel s
                                   | Some p \<Rightarrow> insert (item_id u, p) (childRel s))"
    and "(c, q) \<in> childRel s \<Longrightarrow> c \<noteq> item_id u \<Longrightarrow> (c, q) \<in> childRel s'"
    and "parent e \<noteq> parent u \<Longrightarrow> parent u = Some p \<Longrightarrow> (item_id u, p) \<in> childRel s'"
proof -
  have g: "getChildren s' q =
     (if parent e = parent u then getChildren s q
      else if parent u = Some q then getChildren s q @ [u]
      else if parent e = Some q then withoutFirst (item_id u) (getChildren s q)
      else getChildren s q)" for q
    using assms by (simp add: getChildren_def getChildren_relink)
  show "childRel s' \<subseteq> (case parent u of None \<Rightarrow> childRel s
                                   | Some p \<Rightarrow> insert (item_id u, p) (childRel s))"
  proof
    fix r assume "r \<in> childRel s'"
    then obtain c q where r: "r = (c, q)" and c: "c \<in> item_id ` set (getChildren s' q)"
      by (cases r) (auto simp: childRel_def)
    from c set_withoutFirst [of "item_id u" "getChildren s q"]
    have "c \<in> item_id ` set (getChildren s q) \<or> (c = item_id u \<and> parent u = Some q)"
      unfolding g by (auto split: if_splits)
    then have "(c, q) \<in> childRel s \<or> (c = item_id u \<and> parent u = Some q)"
      by (simp add: childRel_def)
    with r show "r \<in> (case parent u of None \<Rightarrow> childRel s
                                   | Some p \<Rightarrow> insert (item_id u, p) (childRel s))"
      by (cases "parent u") auto
  qed
  show "(c, q) \<in> childRel s'" if "(c, q) \<in> childRel s" "c \<noteq> item_id u"
  proof -
    from that obtain y where y: "y \<in> set (getChildren s q)" "item_id y = c"
      by (auto simp: childRel_def)
    with that(2) have "y \<in> set (withoutFirst (item_id u) (getChildren s q))"
      by (auto intro: in_withoutFirst)
    with y have "y \<in> set (getChildren s' q)" unfolding g by simp
    with y(2) show ?thesis by (auto simp: childRel_def)
  qed
  show "(item_id u, p) \<in> childRel s'" if "parent e \<noteq> parent u" "parent u = Some p"
    using that unfolding childRel_def g by simp
qed

lemma rejected_not_below:
  assumes "getAllChildren s k = Some ds" and "p \<noteq> k" and "p \<notin> item_id ` set ds"
  shows "(p, k) \<notin> (childRel s)\<^sup>*"
proof
  assume "(p, k) \<in> (childRel s)\<^sup>*"
  with assms(2) have "(p, k) \<in> (childRel s)\<^sup>+" by (auto simp: rtrancl_eq_or_trancl)
  with getAllChildren_ids [OF assms(1)] assms(3) show False by blast
qed

lemma cycle_check_passed:
  assumes "wouldCreateCircularReference s k p = Some False"
  shows "(p, k) \<notin> (childRel s)\<^sup>*"
proof -
  from assms have n: "p \<noteq> k"
    by (auto simp: wouldCreateCircularReference_def split: if_splits)
  with assms obtain ds where d: "getAllChildren s k = Some ds"
    by (cases "getAllChildren s k") (auto simp: wouldCreateCircularReference_def)
  with assms n have "p \<notin> item_id ` set ds"
    by (auto simp: wouldCreateCircularReference_def list_ex_iff)
  with d n show ?thesis by (rule rejected_not_below)
qed

lemma updateItem_returned:
  assumes "updateItem s u = Some (Inr s')"
  shows "\<exists>e. getItem s (item_id u) = Some e \<and>
             items s' = AList.update (item_id u) u (items s) \<and>
             childrenMap s' = relink (childrenMap s) e u \<and>
             (case parent u of
                None \<Rightarrow> True
              | Some p \<Rightarrow> has (items s) p \<and>
                          wouldCreateCircularReference s (item_id u) p = Some False)"
proof (cases "getItem s (item_id u)")
  case None
  with assms show ?thesis by (simp add: updateItem_def)
next
  case (Some e)
  show ?thesis
  proof (cases "parent u")
    case None
    with assms Some show ?thesis by (auto simp: updateItem_def)
  next
    case p: (Some p)
    with assms Some have h: "has (items s) p" by (auto simp: updateItem_def split: if_splits)
    with assms Some p show ?thesis
      by (cases "wouldCreateCircularReference s (item_id u) p")
         (auto simp: updateItem_def split: bool.splits)
  qed
qed

section \<open>An invariant of the three mutating calls\<close>

text \<open>
  The child index is acyclic, and it covers every parent link of the primary index.  Both
  hold in a store that satisfies the four invariants, and both survive every call that
  returns normally.
\<close>

lemma invariants_links:
  assumes "invariants s"
  shows "acyclic (childRel s) \<and> parentRel s \<subseteq> childRel s"
proof -
  from assms have "childRel s = parentRel s"
    by (simp add: invariants_def invariants_parentRel_childRel)
  with assms show ?thesis by (simp add: invariants_def acyclicParents_def)
qed

lemma addItem_links:
  assumes "acyclic (childRel s) \<and> parentRel s \<subseteq> childRel s"
    and "addItem s x = Some (Inr s')"
  shows "acyclic (childRel s') \<and> parentRel s' \<subseteq> childRel s'"
proof (cases "parent x")
  case None
  with addItem_returned [OF assms(2)] have i: "items s' = AList.update (item_id x) x (items s)"
    and c: "childrenMap s' = childrenMap s"
    by simp_all
  from parentRel_after_set [OF i] None have "parentRel s' \<subseteq> parentRel s" by auto
  with assms(1) childRel_same [OF c] show ?thesis by auto
next
  case (Some p)
  with addItem_returned [OF assms(2)] have i: "items s' = AList.update (item_id x) x (items s)"
    and c: "childrenMap s' = pushChild (childrenMap s) p x"
    and w: "wouldCreateCircularReference s (item_id x) p = Some False"
    by simp_all
  from parentRel_after_set [OF i] Some
  have "parentRel s' \<subseteq> insert (item_id x, p) (parentRel s)" by auto
  moreover have cr: "childRel s' = insert (item_id x, p) (childRel s)"
    using c by (rule childRel_after_push)
  moreover from cycle_check_passed [OF w] assms(1)
  have "acyclic (insert (item_id x, p) (childRel s))" by simp
  ultimately show ?thesis using assms(1) by auto
qed

lemma updateItem_links:
  assumes "acyclic (childRel s) \<and> parentRel s \<subseteq> childRel s"
    and "updateItem s u = Some (Inr s')"
  shows "acyclic (childRel s') \<and> parentRel s' \<subseteq> childRel s'"
proof -
  from updateItem_returned [OF assms(2)] obtain e where e: "getItem s (item_id u) = Some e"
    and i: "items s' = AList.update (item_id u) u (items s)"
    and c: "childrenMap s' = relink (childrenMap s) e u"
    and w: "case parent u of None \<Rightarrow> True
            | Some p \<Rightarrow> has (items s) p \<and>
                        wouldCreateCircularReference s (item_id u) p = Some False"
    by blast
  note r = childRel_after_relink [OF c]
  have "acyclic (case parent u of None \<Rightarrow> childRel s
                                | Some p \<Rightarrow> insert (item_id u, p) (childRel s))"
  proof (cases "parent u")
    case None
    with assms(1) show ?thesis by simp
  next
    case (Some p)
    with w have "wouldCreateCircularReference s (item_id u) p = Some False" by simp
    from cycle_check_passed [OF this] assms(1)
    have "acyclic (insert (item_id u, p) (childRel s))" by simp
    with Some show ?thesis by simp
  qed
  then have a: "acyclic (childRel s')" using r(1) by (rule acyclic_subset)
  have "parentRel s' \<subseteq> childRel s'"
  proof
    fix l assume "l \<in> parentRel s'"
    then obtain j q where l: "l = (j, q)" and jq: "(j, q) \<in> parentRel s'" by (cases l) auto
    show "l \<in> childRel s'"
    proof (cases "j = item_id u")
      case True
      with jq have q: "parent u = Some q" by (simp add: parentRel_after_set_iff [OF i])
      show ?thesis
      proof (cases "parent e = parent u")
        case False
        from r(3) [OF False q] True l show ?thesis by simp
      next
        case same: True
        with e q have "(item_id u, q) \<in> parentRel s" by (simp add: parentRel_def)
        with assms(1) have "(item_id u, q) \<in> childRel s" by blast
        moreover from same c have "childrenMap s' = childrenMap s" by (simp add: relink_def)
        then have "childRel s' = childRel s" by (rule childRel_same)
        ultimately show ?thesis using True l by simp
      qed
    next
      case False
      with jq have "(j, q) \<in> parentRel s" by (simp add: parentRel_after_set_iff [OF i])
      with assms(1) have "(j, q) \<in> childRel s" by blast
      from r(2) [OF this False] l show ?thesis by simp
    qed
  qed
  with a show ?thesis by simp
qed


lemma removeItem_returned:
  assumes "removeItem s k = Some s'"
  shows "s' = s \<or>
         (\<exists>x ds. getItem s k = Some x \<and> getAllChildren s k = Some ds \<and>
            (\<forall>j. getItem s' j =
                   (if j = k \<or> j \<in> item_id ` set ds then None else getItem s j)) \<and>
            (\<forall>j. getChildren s' j =
                   (if j = k \<or> j \<in> item_id ` set ds then []
                    else if parent x = Some j then withoutFirst k (getChildren s j)
                    else getChildren s j)))"
proof (cases "getItem s k")
  case None
  with assms show ?thesis by (simp add: removeItem_def)
next
  case (Some x)
  with assms obtain ds where d: "getAllChildren s k = Some ds"
    by (cases "getAllChildren s k") (auto simp: removeItem_def)
  let ?cm = "filter (\<lambda>(j, v). j \<noteq> k \<and> j \<notin> item_id ` set ds) (childrenMap s)"
  from removeItem_present [OF Some d] assms
  have s': "s' = \<lparr> items = filter (\<lambda>(j, v). j \<noteq> k \<and> j \<notin> item_id ` set ds) (items s),
                    childrenMap = (case parent x of None \<Rightarrow> ?cm
                                   | Some p \<Rightarrow> unlinkChild ?cm p k) \<rparr>"
    by simp
  have 1: "\<forall>j. getItem s' j = (if j = k \<or> j \<in> item_id ` set ds then None else getItem s j)"
    unfolding s' by (simp add: getItem_def map_of_filter_key)
  have 2: "\<forall>j. getChildren s' j =
                (if j = k \<or> j \<in> item_id ` set ds then []
                 else if parent x = Some j then withoutFirst k (getChildren s j)
                 else getChildren s j)"
    unfolding s'
    by (cases "parent x")
       (simp_all add: getChildren_def childrenOf_unlinkChild childrenOf_filter_key)
  from Some d 1 2 show ?thesis by blast
qed

lemma removeItem_links:
  assumes "acyclic (childRel s) \<and> parentRel s \<subseteq> childRel s"
    and "removeItem s k = Some s'"
  shows "acyclic (childRel s') \<and> parentRel s' \<subseteq> childRel s'"
proof -
  from removeItem_returned [OF assms(2)] show ?thesis
  proof
    assume "s' = s"
    with assms(1) show ?thesis by simp
  next
    assume "\<exists>x ds. getItem s k = Some x \<and> getAllChildren s k = Some ds \<and>
            (\<forall>j. getItem s' j =
                   (if j = k \<or> j \<in> item_id ` set ds then None else getItem s j)) \<and>
            (\<forall>j. getChildren s' j =
                   (if j = k \<or> j \<in> item_id ` set ds then []
                    else if parent x = Some j then withoutFirst k (getChildren s j)
                    else getChildren s j))"
    then obtain x ds where "getItem s k = Some x" and d: "getAllChildren s k = Some ds"
      and gi': "\<forall>j. getItem s' j =
                   (if j = k \<or> j \<in> item_id ` set ds then None else getItem s j)"
      and gc': "\<forall>j. getChildren s' j =
                   (if j = k \<or> j \<in> item_id ` set ds then []
                    else if parent x = Some j then withoutFirst k (getChildren s j)
                    else getChildren s j)"
      by (elim exE conjE) (rule that)
    from gi' have gi: "getItem s' j =
                   (if j = k \<or> j \<in> item_id ` set ds then None else getItem s j)" for j
      by (rule spec)
    from gc' have gc: "getChildren s' j =
                   (if j = k \<or> j \<in> item_id ` set ds then []
                    else if parent x = Some j then withoutFirst k (getChildren s j)
                    else getChildren s j)" for j
      by (rule spec)
    note ids = getAllChildren_ids [OF d]
    have sub: "set (getChildren s' j) \<subseteq> set (getChildren s j)" for j
      using set_withoutFirst [of k "getChildren s j"] by (auto simp: gc)
    then have "childRel s' \<subseteq> childRel s" by (auto simp: childRel_def)
    with assms(1) have a: "acyclic (childRel s')" by (blast intro: acyclic_subset)
    have "parentRel s' \<subseteq> childRel s'"
    proof
      fix l assume "l \<in> parentRel s'"
      then obtain j q where l: "l = (j, q)" and jq: "(j, q) \<in> parentRel s'" by (cases l) auto
      from jq obtain y where y: "getItem s' j = Some y" "parent y = Some q"
        by (auto simp: parentRel_def)
      from y(1) have j: "j \<noteq> k" "j \<notin> item_id ` set ds" and "getItem s j = Some y"
        by (auto simp: gi split: if_splits)
      with y(2) have "(j, q) \<in> parentRel s" by (auto simp: parentRel_def)
      with assms(1) have cr: "(j, q) \<in> childRel s" by blast
      have q1: "q \<noteq> k"
      proof
        assume "q = k"
        with cr have "(j, k) \<in> (childRel s)\<^sup>+" by blast
        with ids j(2) show False by blast
      qed
      have q2: "q \<notin> item_id ` set ds"
      proof
        assume "q \<in> item_id ` set ds"
        with ids have "(q, k) \<in> (childRel s)\<^sup>+" by blast
        with cr have "(j, k) \<in> (childRel s)\<^sup>+" by (rule trancl_into_trancl2)
        with ids j(2) show False by blast
      qed
      from cr obtain c where c: "c \<in> set (getChildren s q)" "item_id c = j"
        by (auto simp: childRel_def)
      with j(1) have "c \<in> set (withoutFirst k (getChildren s q))"
        by (auto intro: in_withoutFirst)
      with c(1) q1 q2 have "c \<in> set (getChildren s' q)" by (simp add: gc)
      with c(2) l show "l \<in> childRel s'" by (auto simp: childRel_def)
    qed
    with a show ?thesis by simp
  qed
qed

lemma perform_links:
  assumes "acyclic (childRel s) \<and> parentRel s \<subseteq> childRel s" and "perform s c = Some s'"
  shows "acyclic (childRel s') \<and> parentRel s' \<subseteq> childRel s'"
proof (cases c)
  case (AddItem x)
  with assms(2) have "addItem s x = Some (Inr s')"
    by (auto split: option.splits sum.splits)
  with assms(1) show ?thesis by (rule addItem_links)
next
  case (UpdateItem x)
  with assms(2) have "updateItem s x = Some (Inr s')"
    by (auto split: option.splits sum.splits)
  with assms(1) show ?thesis by (rule updateItem_links)
next
  case (RemoveItem k)
  with assms(2) have "removeItem s k = Some s'" by simp
  with assms(1) show ?thesis by (rule removeItem_links)
qed

lemma performAll_links:
  "acyclic (childRel s) \<and> parentRel s \<subseteq> childRel s \<Longrightarrow> performAll s cs = Some s' \<Longrightarrow>
   acyclic (childRel s') \<and> parentRel s' \<subseteq> childRel s'"
proof (induction cs arbitrary: s)
  case Nil
  then show ?case by simp
next
  case (Cons c cs)
  from Cons.prems(2) obtain t where t: "perform s c = Some t" "performAll t cs = Some s'"
    by (cases "perform s c") auto
  from perform_links [OF Cons.prems(1) t(1)] t(2) show ?case by (rule Cons.IH)
qed

lemma links_cycle_check:
  assumes "acyclic (childRel s) \<and> parentRel s \<subseteq> childRel s"
    and "(p, k) \<in> (parentRel s)\<^sup>+" and "p \<noteq> k"
  shows "has (items s) p \<and> wouldCreateCircularReference s k p = Some True"
proof -
  from assms(2) obtain z where "(p, z) \<in> parentRel s" by (blast dest: tranclD)
  then have h: "has (items s) p" by (auto simp: parentRel_def has_map_of getItem_def)
  from assms(1) obtain ds where d: "getAllChildren s k = Some ds"
    using getAllChildren_terminates [of s k] by blast
  from assms(1,2) have "(p, k) \<in> (childRel s)\<^sup>+" by (blast intro: trancl_mono)
  with getAllChildren_ids [OF d] have "p \<in> item_id ` set ds" by blast
  with d assms(3) have "wouldCreateCircularReference s k p = Some True"
    by (auto simp: wouldCreateCircularReference_def list_ex_iff)
  with h show ?thesis by simp
qed


section \<open>No item becomes its own ancestor\<close>

text \<open>
  Claim C2, as the code has it.  Start from a store that satisfies the four invariants and
  run any sequence of \<open>addItem\<close>, \<open>updateItem\<close> and \<open>removeItem\<close> calls that all return
  normally.  In the store they leave, no chain of parent links comes back to the item it
  started from.  In that store, an \<open>updateItem\<close> of a stored item whose new parent is the
  item's own identifier or one of its current descendants throws \<open>CircularReference\<close>.  An
  \<open>addItem\<close> with such a parent throws as well, but the error is the one of the first check
  that fails: \<open>ItemAlreadyExists\<close> when the identifier is stored, otherwise \<open>ParentNotFound\<close>
  when the parent is the identifier itself (which is then not stored), otherwise
  \<open>CircularReference\<close>.
\<close>

theorem no_own_ancestor_after_calls:
  assumes "invariants s" and "performAll s cs = Some s'"
  shows "(\<forall>k. (k, k) \<notin> (parentRel s')\<^sup>+) \<and>
         (\<forall>u p. getItem s' (item_id u) \<noteq> None \<and> parent u = Some p \<and>
                (p = item_id u \<or> (p, item_id u) \<in> (parentRel s')\<^sup>+) \<longrightarrow>
                updateItem s' u = Some (Inl (CircularReference, s'))) \<and>
         (\<forall>x p. parent x = Some p \<and> (p = item_id x \<or> (p, item_id x) \<in> (parentRel s')\<^sup>+) \<longrightarrow>
                addItem s' x =
                  Some (Inl (if has (items s') (item_id x) then ItemAlreadyExists (item_id x)
                             else if p = item_id x then ParentNotFound p
                             else CircularReference, s')))"
proof -
  from invariants_links [OF assms(1)] assms(2)
  have J: "acyclic (childRel s') \<and> parentRel s' \<subseteq> childRel s'" by (rule performAll_links)
  then have "acyclic (parentRel s')" by (blast intro: acyclic_subset)
  then have a: "\<forall>k. (k, k) \<notin> (parentRel s')\<^sup>+" by (simp add: acyclic_def)
  have check: "has (items s') p \<and> wouldCreateCircularReference s' k p = Some True"
    if "has (items s') k" "p = k \<or> (p, k) \<in> (parentRel s')\<^sup>+" for k p
  proof (cases "p = k")
    case True
    with that(1) show ?thesis by (simp add: wouldCreateCircularReference_def)
  next
    case False
    with that(2) have "(p, k) \<in> (parentRel s')\<^sup>+" by simp
    from links_cycle_check [OF J this False] show ?thesis .
  qed
  have b: "\<forall>u p. getItem s' (item_id u) \<noteq> None \<and> parent u = Some p \<and>
                (p = item_id u \<or> (p, item_id u) \<in> (parentRel s')\<^sup>+) \<longrightarrow>
                updateItem s' u = Some (Inl (CircularReference, s'))"
  proof (intro allI impI, elim conjE)
    fix u :: TreeStoreItem and p
    assume g: "getItem s' (item_id u) \<noteq> None" and p: "parent u = Some p"
      and d: "p = item_id u \<or> (p, item_id u) \<in> (parentRel s')\<^sup>+"
    from g have "has (items s') (item_id u)" by (simp add: has_map_of getItem_def)
    from check [OF this d] g p show "updateItem s' u = Some (Inl (CircularReference, s'))"
      by (auto simp: updateItem_def)
  qed
  have c: "\<forall>x p. parent x = Some p \<and> (p = item_id x \<or> (p, item_id x) \<in> (parentRel s')\<^sup>+) \<longrightarrow>
                addItem s' x =
                  Some (Inl (if has (items s') (item_id x) then ItemAlreadyExists (item_id x)
                             else if p = item_id x then ParentNotFound p
                             else CircularReference, s'))"
  proof (intro allI impI, elim conjE)
    fix x :: TreeStoreItem and p
    assume p: "parent x = Some p"
      and d: "p = item_id x \<or> (p, item_id x) \<in> (parentRel s')\<^sup>+"
    show "addItem s' x =
            Some (Inl (if has (items s') (item_id x) then ItemAlreadyExists (item_id x)
                       else if p = item_id x then ParentNotFound p
                       else CircularReference, s'))"
    proof (cases "has (items s') (item_id x)")
      case True
      then show ?thesis by (simp add: addItem_def)
    next
      case False
      show ?thesis
      proof (cases "p = item_id x")
        case True
        with False p show ?thesis by (simp add: addItem_def)
      next
        case ne: False
        with d have "(p, item_id x) \<in> (parentRel s')\<^sup>+" by simp
        from links_cycle_check [OF J this ne] False ne p show ?thesis
          by (simp add: addItem_def)
      qed
    qed
  qed
  from a b c show ?thesis by (intro conjI)
qed

lemma sampleCalls_run: "performAll fixture sampleCalls = Some afterSampleCalls"
  by (simp add: sampleCalls_def afterSampleCalls_def eval_simps Let_def)

theorem no_own_ancestor_witness:
  "invariants fixture \<and> performAll fixture sampleCalls = Some afterSampleCalls \<and>
   (\<forall>k. (k, k) \<notin> (parentRel afterSampleCalls)\<^sup>+) \<and>
   getItem afterSampleCalls A \<noteq> None \<and>
   updateItem afterSampleCalls (mk A (Some A) ''Item 2'')
     = Some (Inl (CircularReference, afterSampleCalls)) \<and>
   (Num 9, A) \<in> (parentRel afterSampleCalls)\<^sup>+ \<and>
   updateItem afterSampleCalls (mk A (Some (Num 9)) ''Item 2'')
     = Some (Inl (CircularReference, afterSampleCalls))"
proof -
  note t = no_own_ancestor_after_calls [OF fixture_invariants sampleCalls_run]
  have g: "getItem afterSampleCalls A \<noteq> None"
    by (simp add: getItem_def afterSampleCalls_def)
  have e: "(Num 9, Num 3) \<in> parentRel afterSampleCalls" "(Num 3, A) \<in> parentRel afterSampleCalls"
    by (simp_all add: parentRel_def getItem_def afterSampleCalls_def mk_def A_not_Num)
  from e(2) have "(Num 3, A) \<in> (parentRel afterSampleCalls)\<^sup>+" by (rule r_into_trancl)
  with e(1) have d: "(Num 9, A) \<in> (parentRel afterSampleCalls)\<^sup>+" by (rule trancl_into_trancl2)
  from t have 1: "\<forall>k. (k, k) \<notin> (parentRel afterSampleCalls)\<^sup>+" by (rule conjunct1)
  from t have u: "\<And>(u :: TreeStoreItem) p. getItem afterSampleCalls (item_id u) \<noteq> None \<Longrightarrow> parent u = Some p \<Longrightarrow>
      p = item_id u \<or> (p, item_id u) \<in> (parentRel afterSampleCalls)\<^sup>+ \<Longrightarrow>
      updateItem afterSampleCalls u = Some (Inl (CircularReference, afterSampleCalls))"
    by blast
  have 2: "updateItem afterSampleCalls (mk A (Some A) ''Item 2'')
     = Some (Inl (CircularReference, afterSampleCalls))"
    by (rule u [where p = A]) (simp_all add: mk_def g)
  have 3: "updateItem afterSampleCalls (mk A (Some (Num 9)) ''Item 2'')
     = Some (Inl (CircularReference, afterSampleCalls))"
    by (rule u [where p = "Num 9"]) (simp_all add: mk_def g d)
  from fixture_invariants sampleCalls_run 1 g 2 d 3 show ?thesis by (intro conjI)
qed

text \<open>
  On the fixture, which satisfies the invariants, adding an item with identifier 1 and parent
  1 is refused because 1 is stored, and adding an item with identifier 9 and parent 9 is
  refused because 9 is not stored: neither call reaches the cycle check.  Updating an item
  with identifier 999 and parent 999 is refused because 999 is not stored.
\<close>

theorem addItem_own_parent_counterexample:
  "invariants fixture \<and>
   addItem fixture (mk (Num 1) (Some (Num 1)) ''Item 1'')
     = Some (Inl (ItemAlreadyExists (Num 1), fixture)) \<and>
   addItem fixture (mk (Num 9) (Some (Num 9)) ''Item 9'')
     = Some (Inl (ParentNotFound (Num 9), fixture)) \<and>
   updateItem fixture (mk (Num 999) (Some (Num 999)) ''Item 999'')
     = Some (Inl (ItemNotFound (Num 999), fixture))"
proof -
  have "addItem fixture (mk (Num 1) (Some (Num 1)) ''Item 1'')
     = Some (Inl (ItemAlreadyExists (Num 1), fixture))"
    "addItem fixture (mk (Num 9) (Some (Num 9)) ''Item 9'')
     = Some (Inl (ParentNotFound (Num 9), fixture))"
    by (simp_all add: addItem_def has_def mk_def, simp_all add: fixture_unfold A_not_Num)
  moreover have "updateItem fixture (mk (Num 999) (Some (Num 999)) ''Item 999'')
     = Some (Inl (ItemNotFound (Num 999), fixture))"
    by (simp add: updateItem_def getItem_def mk_def, simp add: fixture_unfold A_not_Num)
  ultimately show ?thesis using fixture_invariants by simp
qed

section \<open>The invariants through the lookups\<close>

lemma stored_iff:
  "distinct (map fst (items s)) \<Longrightarrow> (k, x) \<in> set (items s) \<longleftrightarrow> getItem s k = Some x"
  by (simp add: getItem_def)

lemma getChildren_entry:
  "distinct (map fst (childrenMap s)) \<Longrightarrow> (p, cs) \<in> set (childrenMap s) \<Longrightarrow>
   getChildren s p = cs"
  by (simp add: getChildren_def childrenOf_def)

lemma lookupInvariantsD:
  assumes "lookupInvariants s"
  shows "distinct (map fst (items s))"
    and "distinct (map fst (childrenMap s))"
    and "getItem s k = Some x \<Longrightarrow> item_id x = k"
    and "getItem s k = Some x \<Longrightarrow> parent x = Some p \<Longrightarrow> getItem s p \<noteq> None"
    and "acyclic (parentRel s)"
    and "c \<in> set (getChildren s p) \<Longrightarrow> getItem s (item_id c) = Some c \<and> parent c = Some p"
    and "getItem s k = Some x \<Longrightarrow> parent x = Some p \<Longrightarrow> x \<in> set (getChildren s p)"
    and "distinct (map item_id (getChildren s p))"
  using assms unfolding lookupInvariants_def by blast+

lemma lookupInvariants_sound:
  assumes l: "lookupInvariants s"
  shows "invariants s \<and> childListsDistinct s"
proof -
  note d = lookupInvariantsD [OF l]
  have u: "uniqueIds s"
    unfolding uniqueIds_def
  proof (intro conjI ballI)
    fix e assume em: "e \<in> set (items s)"
    obtain k x where e: "e = (k, x)" by (cases e)
    with em have m: "(k, x) \<in> set (items s)" by simp
    from m have "getItem s k = Some x" by (simp add: stored_iff [OF d(1)])
    then have "item_id x = k" by (rule d(3))
    with e show "case e of (k, x) \<Rightarrow> item_id x = k" by simp
  qed (rule d(1), rule d(2))
  have pe: "parentsExist s"
    unfolding parentsExist_def
  proof
    fix e assume em: "e \<in> set (items s)"
    obtain k x where e: "e = (k, x)" by (cases e)
    with em have m: "(k, x) \<in> set (items s)" by simp
    from m have g: "getItem s k = Some x" by (simp add: stored_iff [OF d(1)])
    show "case e of (k, x) \<Rightarrow> (case parent x of None \<Rightarrow> True | Some p \<Rightarrow> has (items s) p)"
    proof (cases "parent x")
      case None
      with e show ?thesis by simp
    next
      case (Some p)
      from d(4) [OF g Some] have "has (items s) p" by (simp add: has_map_of getItem_def)
      with e Some show ?thesis by simp
    qed
  qed
  have ii: "indexInverse s"
    unfolding indexInverse_def
  proof (intro conjI ballI)
    fix e assume em: "e \<in> set (childrenMap s)"
    obtain p cs where e: "e = (p, cs)" by (cases e)
    with em have m: "(p, cs) \<in> set (childrenMap s)" by simp
    from getChildren_entry [OF d(2) m] have g: "getChildren s p = cs" .
    have "\<forall>c \<in> set cs. getItem s (item_id c) = Some c \<and> parent c = Some p"
    proof
      fix c assume "c \<in> set cs"
      with g have "c \<in> set (getChildren s p)" by simp
      then show "getItem s (item_id c) = Some c \<and> parent c = Some p" by (rule d(6))
    qed
    with e show "case e of (p, cs) \<Rightarrow>
        \<forall>c \<in> set cs. getItem s (item_id c) = Some c \<and> parent c = Some p" by simp
  next
    fix e assume em: "e \<in> set (items s)"
    obtain k x where e: "e = (k, x)" by (cases e)
    with em have m: "(k, x) \<in> set (items s)" by simp
    from m have g: "getItem s k = Some x" by (simp add: stored_iff [OF d(1)])
    show "case e of (k, x) \<Rightarrow>
        (case parent x of None \<Rightarrow> True | Some p \<Rightarrow> x \<in> set (getChildren s p))"
    proof (cases "parent x")
      case None
      with e show ?thesis by simp
    next
      case (Some p)
      from d(7) [OF g Some] e Some show ?thesis by simp
    qed
  qed
  have cd: "childListsDistinct s"
    unfolding childListsDistinct_def
  proof
    fix e assume em: "e \<in> set (childrenMap s)"
    obtain p cs where e: "e = (p, cs)" by (cases e)
    with em have m: "(p, cs) \<in> set (childrenMap s)" by simp
    from getChildren_entry [OF d(2) m] d(8) [of p] e
    show "case e of (p, cs) \<Rightarrow> distinct (map item_id cs)" by simp
  qed
  from d(5) have "acyclicParents s" by (simp add: acyclicParents_def)
  with u pe ii cd show ?thesis by (simp add: invariants_def)
qed

lemma lookupInvariants_complete:
  assumes "invariants s" and cd: "childListsDistinct s"
  shows "lookupInvariants s"
proof -
  from assms(1) have u: "uniqueIds s" and pe: "parentsExist s" and ac: "acyclicParents s"
    and ii: "indexInverse s"
    by (simp_all add: invariants_def)
  from u have di: "distinct (map fst (items s))" and dc: "distinct (map fst (childrenMap s))"
    and keyed: "\<forall>(k, x) \<in> set (items s). item_id x = k"
    by (simp_all add: uniqueIds_def)
  have 1: "\<forall>k x. getItem s k = Some x \<longrightarrow> item_id x = k"
  proof (intro allI impI)
    fix k x assume "getItem s k = Some x"
    then have "(k, x) \<in> set (items s)" by (simp add: stored_iff [OF di])
    with keyed show "item_id x = k" by blast
  qed
  have 2: "\<forall>k x p. getItem s k = Some x \<and> parent x = Some p \<longrightarrow> getItem s p \<noteq> None"
  proof (intro allI impI, elim conjE)
    fix k x p assume "getItem s k = Some x" and p: "parent x = Some p"
    then have "(k, x) \<in> set (items s)" by (simp add: stored_iff [OF di])
    with pe have "case parent x of None \<Rightarrow> True | Some p \<Rightarrow> has (items s) p"
      unfolding parentsExist_def by blast
    with p have "has (items s) p" by simp
    then show "getItem s p \<noteq> None" by (simp add: has_map_of getItem_def)
  qed
  have 3: "\<forall>p c. c \<in> set (getChildren s p) \<longrightarrow> getItem s (item_id c) = Some c \<and> parent c = Some p"
    using listed_is_stored [OF ii] by blast
  have 4: "\<forall>k x p. getItem s k = Some x \<and> parent x = Some p \<longrightarrow> x \<in> set (getChildren s p)"
  proof (intro allI impI, elim conjE)
    fix k x p assume "getItem s k = Some x" and p: "parent x = Some p"
    then have "(k, x) \<in> set (items s)" by (simp add: stored_iff [OF di])
    with ii have "case parent x of None \<Rightarrow> True | Some p \<Rightarrow> x \<in> set (getChildren s p)"
      unfolding indexInverse_def by blast
    with p show "x \<in> set (getChildren s p)" by simp
  qed
  have 5: "\<forall>p. distinct (map item_id (getChildren s p))"
    using childrenOf_distinct [OF cd] by (simp add: getChildren_def)
  from ac have 6: "acyclic (parentRel s)" by (simp add: acyclicParents_def)
  show ?thesis unfolding lookupInvariants_def
    using di dc 1 2 6 3 4 5 by (intro conjI)
qed

section \<open>The invariants after a mutation\<close>

lemma lookupInvariants_links:
  assumes "lookupInvariants s"
  shows "acyclic (childRel s) \<and> parentRel s \<subseteq> childRel s"
  using lookupInvariants_sound [OF assms] by (simp add: invariants_links)

lemma lookupInvariantsI:
  assumes "distinct (map fst (items s))"
    and "distinct (map fst (childrenMap s))"
    and "\<And>k x. getItem s k = Some x \<Longrightarrow> item_id x = k"
    and "\<And>k x p. getItem s k = Some x \<Longrightarrow> parent x = Some p \<Longrightarrow> getItem s p \<noteq> None"
    and "acyclic (parentRel s)"
    and "\<And>p c. c \<in> set (getChildren s p) \<Longrightarrow> getItem s (item_id c) = Some c \<and> parent c = Some p"
    and "\<And>k x p. getItem s k = Some x \<Longrightarrow> parent x = Some p \<Longrightarrow> x \<in> set (getChildren s p)"
    and "\<And>p. distinct (map item_id (getChildren s p))"
  shows "lookupInvariants s"
  unfolding lookupInvariants_def using assms by blast

lemma distinct_pushChild:
  "distinct (map fst cm) \<Longrightarrow> distinct (map fst (pushChild cm p x))"
  unfolding pushChild_def by (rule distinct_update)

lemma distinct_unlinkChild:
  "distinct (map fst cm) \<Longrightarrow> distinct (map fst (unlinkChild cm p k))"
  by (auto simp: unlinkChild_def distinct_update split: option.splits)

lemma distinct_relink:
  "distinct (map fst cm) \<Longrightarrow> distinct (map fst (relink cm e u))"
  by (cases "parent e"; cases "parent u")
     (simp_all add: relink_def distinct_pushChild distinct_unlinkChild)

lemma withoutFirst_distinct:
  "distinct (map item_id cs) \<Longrightarrow> distinct (map item_id (withoutFirst k cs))"
  by (simp add: ids_withoutFirst)

lemma withoutFirst_gone:
  "distinct (map item_id cs) \<Longrightarrow> c \<in> set (withoutFirst k cs) \<Longrightarrow> item_id c \<noteq> k"
  by (induction cs) (force split: if_splits)+

lemma addItem_keeps_invariants:
  assumes l: "lookupInvariants s" and r: "addItem s x = Some (Inr s')"
  shows "lookupInvariants s'"
proof -
  note d = lookupInvariantsD [OF l]
  let ?k = "item_id x"
  from addItem_returned [OF r] have n: "\<not> has (items s) ?k"
    and i: "items s' = AList.update ?k x (items s)"
    and c: "case parent x of
              None \<Rightarrow> childrenMap s' = childrenMap s
            | Some p \<Rightarrow> childrenMap s' = pushChild (childrenMap s) p x \<and> has (items s) p \<and>
                        wouldCreateCircularReference s ?k p = Some False"
    by simp_all
  from n have new: "getItem s ?k = None" by (simp add: has_map_of getItem_def)
  have gi: "getItem s' j = (if j = ?k then Some x else getItem s j)" for j
    by (simp add: getItem_def i update_conv')
  have gc: "getChildren s' q = (if parent x = Some q then getChildren s q @ [x] else getChildren s q)"
    for q
    using c by (cases "parent x") (auto simp: getChildren_def childrenOf_pushChild)
  have unlisted: "item_id c \<noteq> ?k" if "c \<in> set (getChildren s q)" for c q
    using d(6) [OF that] new by auto
  show ?thesis
  proof (rule lookupInvariantsI)
    show "distinct (map fst (items s'))" unfolding i using d(1) by (rule distinct_update)
    show "distinct (map fst (childrenMap s'))"
      using c d(2) by (cases "parent x") (simp_all add: distinct_pushChild)
    show "item_id y = j" if "getItem s' j = Some y" for j y
      using that d(3) [of j y] by (auto simp: gi split: if_splits)
    show "getItem s' p \<noteq> None" if "getItem s' j = Some y" "parent y = Some p" for j y p
    proof (cases "j = ?k")
      case True
      with that c have "has (items s) p" by (simp add: gi)
      then have "getItem s p \<noteq> None" by (simp add: has_map_of getItem_def)
      then show ?thesis by (simp add: gi)
    next
      case False
      with that d(4) [of j y p] show ?thesis by (simp add: gi)
    qed
    from addItem_links [OF lookupInvariants_links [OF l] r]
    show "acyclic (parentRel s')" by (blast intro: acyclic_subset)
    show "getItem s' (item_id c) = Some c \<and> parent c = Some p"
      if "c \<in> set (getChildren s' p)" for p c
    proof (cases "c \<in> set (getChildren s p)")
      case True
      from d(6) [OF True] unlisted [OF True] show ?thesis by (simp add: gi)
    next
      case False
      with that have "c = x" "parent x = Some p" by (auto simp: gc split: if_splits)
      then show ?thesis by (simp add: gi)
    qed
    show "y \<in> set (getChildren s' p)" if "getItem s' j = Some y" "parent y = Some p" for j y p
    proof (cases "j = ?k")
      case True
      with that show ?thesis by (simp add: gi gc)
    next
      case False
      with that d(7) [of j y p] show ?thesis by (simp add: gi gc)
    qed
    show "distinct (map item_id (getChildren s' p))" for p
    proof (cases "parent x = Some p")
      case True
      have "?k \<notin> item_id ` set (getChildren s p)"
      proof
        assume "?k \<in> item_id ` set (getChildren s p)"
        then obtain c where c: "c \<in> set (getChildren s p)" "item_id c = ?k" by (auto simp: image_iff)
        from unlisted [OF c(1)] c(2) show False by simp
      qed
      with d(8) [of p] True show ?thesis by (simp add: gc)
    next
      case False
      with d(8) [of p] show ?thesis by (simp add: gc)
    qed
  qed
qed


lemma updateItem_keeps_moved:
  assumes l: "lookupInvariants s" and r: "updateItem s u = Some (Inr s')"
    and m: "\<And>e. getItem s (item_id u) = Some e \<Longrightarrow> parent e \<noteq> parent u \<or> e = u"
  shows "lookupInvariants s'"
proof -
  note d = lookupInvariantsD [OF l]
  let ?k = "item_id u"
  from updateItem_returned [OF r] obtain e where e: "getItem s ?k = Some e"
    and i: "items s' = AList.update ?k u (items s)"
    and c: "childrenMap s' = relink (childrenMap s) e u"
    and w: "case parent u of None \<Rightarrow> True
            | Some p \<Rightarrow> has (items s) p \<and>
                        wouldCreateCircularReference s ?k p = Some False"
    by blast
  have gi: "getItem s' j = (if j = ?k then Some u else getItem s j)" for j
    by (simp add: getItem_def i update_conv')
  have gc: "getChildren s' q =
     (if parent e = parent u then getChildren s q
      else if parent u = Some q then getChildren s q @ [u]
      else if parent e = Some q then withoutFirst ?k (getChildren s q)
      else getChildren s q)" for q
    by (simp add: getChildren_def c getChildren_relink)
  have old: "c = e \<and> parent e = Some q" if "c \<in> set (getChildren s q)" "item_id c = ?k" for c q
    using d(6) [OF that(1)] that(2) e by simp
  show ?thesis
  proof (cases "parent e = parent u")
    case True
    with m [OF e] have "e = u" by simp
    with e have "AList.update ?k u (items s) = items s"
      by (simp add: getItem_def update_triv)
    with i c True have "s' = s" by (cases s, cases s') (simp add: relink_def)
    with l show ?thesis by simp
  next
    case False
    show ?thesis
    proof (rule lookupInvariantsI)
      show "distinct (map fst (items s'))" unfolding i using d(1) by (rule distinct_update)
      show "distinct (map fst (childrenMap s'))" unfolding c using d(2) by (rule distinct_relink)
      show "item_id y = j" if "getItem s' j = Some y" for j y
        using that d(3) [of j y] by (auto simp: gi split: if_splits)
      show "getItem s' p \<noteq> None" if "getItem s' j = Some y" "parent y = Some p" for j y p
      proof (cases "j = ?k")
        case True
        with that w have "has (items s) p" by (simp add: gi)
        then have "getItem s p \<noteq> None" by (simp add: has_map_of getItem_def)
        then show ?thesis by (simp add: gi)
      next
        case False
        with that d(4) [of j y p] show ?thesis by (simp add: gi)
      qed
      from updateItem_links [OF lookupInvariants_links [OF l] r]
      show "acyclic (parentRel s')" by (blast intro: acyclic_subset)
      show "getItem s' (item_id c) = Some c \<and> parent c = Some p"
        if "c \<in> set (getChildren s' p)" for p c
      proof (cases "parent u = Some p")
        case True
        show ?thesis
        proof (cases "c = u")
          case True
          with \<open>parent u = Some p\<close> show ?thesis by (simp add: gi)
        next
          case ne: False
          with that False True have in_old: "c \<in> set (getChildren s p)" by (simp add: gc)
          have "item_id c \<noteq> ?k"
          proof
            assume "item_id c = ?k"
            from old [OF in_old this] True False show False by simp
          qed
          with d(6) [OF in_old] show ?thesis by (simp add: gi)
        qed
      next
        case np: False
        show ?thesis
        proof (cases "parent e = Some p")
          case True
          with that False np have in_new: "c \<in> set (withoutFirst ?k (getChildren s p))"
            by (simp add: gc)
          from withoutFirst_gone [OF d(8) in_new] have "item_id c \<noteq> ?k" .
          moreover from in_new set_withoutFirst have "c \<in> set (getChildren s p)" by blast
          ultimately show ?thesis using d(6) by (simp add: gi)
        next
          case op: False
          with that False np have in_old: "c \<in> set (getChildren s p)" by (simp add: gc)
          have "item_id c \<noteq> ?k"
          proof
            assume "item_id c = ?k"
            from old [OF in_old this] op show False by simp
          qed
          with d(6) [OF in_old] show ?thesis by (simp add: gi)
        qed
      qed
      show "y \<in> set (getChildren s' p)" if "getItem s' j = Some y" "parent y = Some p" for j y p
      proof (cases "j = ?k")
        case True
        with that False show ?thesis by (simp add: gi gc)
      next
        case ne: False
        with that have g: "getItem s j = Some y" by (simp add: gi)
        from d(7) [OF g that(2)] have in_old: "y \<in> set (getChildren s p)" .
        from d(3) [OF g] ne have "item_id y \<noteq> ?k" by simp
        with in_old have "y \<in> set (withoutFirst ?k (getChildren s p))" by (rule in_withoutFirst)
        with in_old False show ?thesis by (simp add: gc)
      qed
      show "distinct (map item_id (getChildren s' p))" for p
      proof (cases "parent u = Some p")
        case True
        have "?k \<notin> item_id ` set (getChildren s p)"
        proof
          assume "?k \<in> item_id ` set (getChildren s p)"
          then obtain c where c: "c \<in> set (getChildren s p)" "item_id c = ?k"
            by (auto simp: image_iff)
          from old [OF c] True False show False by simp
        qed
        with d(8) [of p] True False show ?thesis by (simp add: gc)
      next
        case np: False
        with d(8) [of p] withoutFirst_distinct [OF d(8), of ?k p] False show ?thesis
          by (simp add: gc)
      qed
    qed
  qed
qed


lemma updateItem_keeps_root:
  assumes l: "lookupInvariants s" and r: "updateItem s u = Some (Inr s')"
    and e: "getItem s (item_id u) = Some e" and pe: "parent e = None" and pu: "parent u = None"
  shows "lookupInvariants s'"
proof -
  note d = lookupInvariantsD [OF l]
  let ?k = "item_id u"
  from updateItem_returned [OF r] e have i: "items s' = AList.update ?k u (items s)"
    and c: "childrenMap s' = relink (childrenMap s) e u"
    by auto
  have gi: "getItem s' j = (if j = ?k then Some u else getItem s j)" for j
    by (simp add: getItem_def i update_conv')
  have gc: "getChildren s' q = getChildren s q" for q
    by (simp add: getChildren_def c relink_def pe pu)
  have other: "item_id c \<noteq> ?k" if "c \<in> set (getChildren s q)" for c q
  proof
    assume "item_id c = ?k"
    with d(6) [OF that] e pe show False by simp
  qed
  show ?thesis
  proof (rule lookupInvariantsI)
    show "distinct (map fst (items s'))" unfolding i using d(1) by (rule distinct_update)
    show "distinct (map fst (childrenMap s'))" unfolding c using d(2) by (rule distinct_relink)
    show "item_id y = j" if "getItem s' j = Some y" for j y
      using that d(3) [of j y] by (auto simp: gi split: if_splits)
    show "getItem s' p \<noteq> None" if "getItem s' j = Some y" "parent y = Some p" for j y p
    proof (cases "j = ?k")
      case True
      with that pu show ?thesis by (simp add: gi)
    next
      case False
      with that d(4) [of j y p] show ?thesis by (simp add: gi)
    qed
    from updateItem_links [OF lookupInvariants_links [OF l] r]
    show "acyclic (parentRel s')" by (blast intro: acyclic_subset)
    show "getItem s' (item_id c) = Some c \<and> parent c = Some p"
      if "c \<in> set (getChildren s' p)" for p c
    proof -
      from that have in_old: "c \<in> set (getChildren s p)" by (simp add: gc)
      from d(6) [OF in_old] other [OF in_old] show ?thesis by (simp add: gi)
    qed
    show "y \<in> set (getChildren s' p)" if "getItem s' j = Some y" "parent y = Some p" for j y p
    proof (cases "j = ?k")
      case True
      with that pu show ?thesis by (simp add: gi)
    next
      case False
      with that d(7) [of j y p] show ?thesis by (simp add: gi gc)
    qed
    show "distinct (map item_id (getChildren s' p))" for p
      using d(8) [of p] by (simp add: gc)
  qed
qed

lemma updateItem_keeps_invariants:
  assumes l: "lookupInvariants s" and r: "updateItem s u = Some (Inr s')"
    and m: "\<And>e. getItem s (item_id u) = Some e \<Longrightarrow>
                 parent e \<noteq> parent u \<or> parent u = None \<or> e = u"
  shows "lookupInvariants s'"
proof -
  from updateItem_returned [OF r] obtain e where e: "getItem s (item_id u) = Some e" by blast
  show ?thesis
  proof (cases "parent e \<noteq> parent u \<or> e = u")
    case True
    with e have "\<And>e'. getItem s (item_id u) = Some e' \<Longrightarrow> parent e' \<noteq> parent u \<or> e' = u"
      by simp
    with l r show ?thesis by (rule updateItem_keeps_moved)
  next
    case False
    with m [OF e] have "parent e = None" "parent u = None" by auto
    with l r e show ?thesis by (rule updateItem_keeps_root)
  qed
qed

lemma updateItem_stale_child:
  assumes l: "lookupInvariants s" and r: "updateItem s u = Some (Inr s')"
    and e: "getItem s (item_id u) = Some e" and same: "parent e = Some p" "parent u = Some p"
  shows "e \<in> set (getChildren s' p) \<and> getItem s' (item_id e) = Some u"
proof -
  note d = lookupInvariantsD [OF l]
  from updateItem_returned [OF r] e have i: "items s' = AList.update (item_id u) u (items s)"
    and c: "childrenMap s' = relink (childrenMap s) e u"
    by auto
  from same have "getChildren s' p = getChildren s p"
    by (simp add: getChildren_def c relink_def)
  moreover from d(7) [OF e same(1)] have "e \<in> set (getChildren s p)" .
  moreover from d(3) [OF e] have "item_id e = item_id u" .
  ultimately show ?thesis by (simp add: getItem_def i update_conv')
qed


lemma removeItem_keeps_invariants:
  assumes l: "lookupInvariants s" and r: "removeItem s k = Some s'"
  shows "lookupInvariants s'"
proof (cases "getItem s k")
  case None
  with r have "s' = s" by (simp add: removeItem_def)
  with l show ?thesis by simp
next
  case (Some x)
  note d = lookupInvariantsD [OF l]
  from r Some obtain ds where ds: "getAllChildren s k = Some ds"
    by (cases "getAllChildren s k") (auto simp: removeItem_def)
  let ?keep = "\<lambda>j. j \<noteq> k \<and> j \<notin> item_id ` set ds"
  let ?cm = "filter (\<lambda>(j, v). ?keep j) (childrenMap s)"
  from removeItem_present [OF Some ds] r
  have s': "s' = \<lparr> items = filter (\<lambda>(j, v). ?keep j) (items s),
                    childrenMap = (case parent x of None \<Rightarrow> ?cm
                                   | Some p \<Rightarrow> unlinkChild ?cm p k) \<rparr>"
    by simp
  have gi: "getItem s' j = (if ?keep j then getItem s j else None)" for j
    unfolding s' by (simp add: getItem_def map_of_filter_key)
  have gc: "getChildren s' q =
              (if ?keep q then (if parent x = Some q then withoutFirst k (getChildren s q)
                                else getChildren s q)
               else [])" for q
    unfolding s'
    by (cases "parent x")
       (simp_all add: getChildren_def childrenOf_unlinkChild childrenOf_filter_key)
  from lookupInvariants_sound [OF l] have eq: "childRel s = parentRel s"
    by (simp add: invariants_def invariants_parentRel_childRel)
  note ids = getAllChildren_ids [OF ds, unfolded eq]
  have below: "j \<in> item_id ` set ds" if "(j, q) \<in> parentRel s" "\<not> ?keep q" for j q
  proof (cases "q = k")
    case True
    with that(1) ids show ?thesis by blast
  next
    case False
    with that(2) ids have "(q, k) \<in> (parentRel s)\<^sup>+" by blast
    with that(1) have "(j, k) \<in> (parentRel s)\<^sup>+" by (rule trancl_into_trancl2)
    with ids show ?thesis by blast
  qed
  have above: "\<not> ?keep q" if "(j, q) \<in> parentRel s" "j \<in> item_id ` set ds" for j q
  proof -
    from that(2) ids have "(j, k) \<in> (parentRel s)\<^sup>+" by blast
    then obtain z where z: "(j, z) \<in> parentRel s" "(z, k) \<in> (parentRel s)\<^sup>*"
      by (blast dest: tranclD)
    from parentRel_single_valued [of s] that(1) z(1) have "z = q"
      by (auto simp: single_valued_def)
    with z(2) have "q = k \<or> (q, k) \<in> (parentRel s)\<^sup>+" by (auto simp: rtrancl_eq_or_trancl)
    with ids show ?thesis by blast
  qed
  have link: "(item_id c, q) \<in> parentRel s" if "c \<in> set (getChildren s q)" for c q
    using d(6) [OF that] by (auto simp: parentRel_def)
  have sub: "c \<in> set (getChildren s q) \<and> ?keep q" if "c \<in> set (getChildren s' q)" for c q
    using that set_withoutFirst [of k "getChildren s q"] by (auto simp: gc split: if_splits)
  have kept: "?keep (item_id c)" if "c \<in> set (getChildren s' q)" for c q
  proof -
    from sub [OF that] have c: "c \<in> set (getChildren s q)" and q: "?keep q" by simp_all
    have "item_id c \<noteq> k"
    proof
      assume k: "item_id c = k"
      with d(6) [OF c] Some have "parent x = Some q" by simp
      with that q have "c \<in> set (withoutFirst k (getChildren s q))" by (simp add: gc)
      from withoutFirst_gone [OF d(8) this] k show False by simp
    qed
    moreover have "item_id c \<notin> item_id ` set ds"
    proof
      assume "item_id c \<in> item_id ` set ds"
      from above [OF link [OF c] this] q show False by simp
    qed
    ultimately show ?thesis by simp
  qed
  show ?thesis
  proof (rule lookupInvariantsI)
    show "distinct (map fst (items s'))" unfolding s' using d(1) by (simp add: distinct_map_filter)
    from d(2) have "distinct (map fst ?cm)" by (simp add: distinct_map_filter)
    then show "distinct (map fst (childrenMap s'))"
      unfolding s' by (cases "parent x") (simp_all add: distinct_unlinkChild)
    show "item_id y = j" if "getItem s' j = Some y" for j y
      using that d(3) [of j y] by (auto simp: gi split: if_splits)
    show "getItem s' p \<noteq> None" if "getItem s' j = Some y" "parent y = Some p" for j y p
    proof -
      from that(1) have j: "?keep j" and g: "getItem s j = Some y"
        by (auto simp: gi split: if_splits)
      from g that(2) have e: "(j, p) \<in> parentRel s" by (auto simp: parentRel_def)
      have "?keep p"
      proof (rule ccontr)
        assume "\<not> ?keep p"
        from below [OF e this] j show False by simp
      qed
      with d(4) [OF g that(2)] show ?thesis by (simp add: gi)
    qed
    from removeItem_links [OF lookupInvariants_links [OF l] r]
    show "acyclic (parentRel s')" by (blast intro: acyclic_subset)
    show "getItem s' (item_id c) = Some c \<and> parent c = Some p"
      if "c \<in> set (getChildren s' p)" for p c
    proof -
      from sub [OF that] have "c \<in> set (getChildren s p)" by simp
      from d(6) [OF this] kept [OF that] show ?thesis by (simp add: gi)
    qed
    show "y \<in> set (getChildren s' p)" if "getItem s' j = Some y" "parent y = Some p" for j y p
    proof -
      from that(1) have j: "?keep j" and g: "getItem s j = Some y"
        by (auto simp: gi split: if_splits)
      from g that(2) have e: "(j, p) \<in> parentRel s" by (auto simp: parentRel_def)
      have p: "?keep p"
      proof (rule ccontr)
        assume "\<not> ?keep p"
        from below [OF e this] j show False by simp
      qed
      from d(7) [OF g that(2)] have in_old: "y \<in> set (getChildren s p)" .
      from d(3) [OF g] j have "item_id y \<noteq> k" by simp
      with in_old have "y \<in> set (withoutFirst k (getChildren s p))" by (rule in_withoutFirst)
      with in_old p show ?thesis by (simp add: gc)
    qed
    show "distinct (map item_id (getChildren s' p))" for p
      using d(8) [of p] withoutFirst_distinct [OF d(8), of k p] by (simp add: gc)
  qed
qed


lemma lookupInvariants_inverse:
  assumes "lookupInvariants s"
  shows "X \<in> set (getChildren s p) \<longleftrightarrow> getItem s (item_id X) = Some X \<and> parent X = Some p"
  using lookupInvariantsD(6,7) [OF assms] by blast

section \<open>The secondary index after a mutation\<close>

text \<open>
  What the three mutating calls keep.  Take a store that satisfies the four invariants and
  whose child lists name no identifier twice.  After a successful \<open>addItem\<close>, after a
  \<open>removeItem\<close>, and after a successful \<open>updateItem\<close> that changes the parent of the item,
  or leaves a null parent null, or stores the record the item already had, the store
  satisfies the invariants again, its child lists still name no identifier twice, and the
  secondary index is the inverse of the parent field: a record is an entry of the child list
  of \<open>p\<close> exactly when it is the record stored under its identifier and its parent is \<open>p\<close>;
  the updated record is then the entry of its parent's child list.  The one case left is an
  update that keeps a non-null parent and changes the record: the old record stays in the
  parent's child list while the primary index holds the new one, and the fourth invariant is
  lost.
\<close>

theorem mutations_keep_invariants:
  assumes "invariants s" and "childListsDistinct s"
  shows "(addItem s x = Some (Inr s') \<or> removeItem s k = Some s' \<or>
          (updateItem s u = Some (Inr s') \<and>
           (\<forall>e. getItem s (item_id u) = Some e \<longrightarrow>
                  parent e \<noteq> parent u \<or> parent u = None \<or> e = u)) \<longrightarrow>
            invariants s' \<and> childListsDistinct s' \<and>
            (\<forall>X p. X \<in> set (getChildren s' p) \<longleftrightarrow>
                     getItem s' (item_id X) = Some X \<and> parent X = Some p)) \<and>
         (updateItem s u = Some (Inr s') \<and>
          (\<forall>e. getItem s (item_id u) = Some e \<longrightarrow>
                 parent e \<noteq> parent u \<or> parent u = None \<or> e = u) \<longrightarrow>
            getItem s' (item_id u) = Some u \<and>
            (\<forall>p. parent u = Some p \<longrightarrow> u \<in> set (getChildren s' p))) \<and>
         (updateItem s u = Some (Inr s') \<and> getItem s (item_id u) = Some e \<and>
          parent e = parent u \<and> parent u = Some p \<and> e \<noteq> u \<longrightarrow>
            e \<in> set (getChildren s' p) \<and> getItem s' (item_id e) = Some u \<and> \<not> invariants s')"
proof -
  from assms have l: "lookupInvariants s" by (rule lookupInvariants_complete)
  let ?A = "invariants s' \<and> childListsDistinct s' \<and>
            (\<forall>X p. X \<in> set (getChildren s' p) \<longleftrightarrow>
                     getItem s' (item_id X) = Some X \<and> parent X = Some p)"
  let ?M = "\<forall>e. getItem s (item_id u) = Some e \<longrightarrow>
                  parent e \<noteq> parent u \<or> parent u = None \<or> e = u"
  have after: ?A if "lookupInvariants s'"
    using lookupInvariants_sound [OF that] lookupInvariants_inverse [OF that] by blast
  have a: "addItem s x = Some (Inr s') \<or> removeItem s k = Some s' \<or>
          (updateItem s u = Some (Inr s') \<and> ?M) \<longrightarrow> ?A"
  proof (intro impI, elim disjE conjE)
    assume "addItem s x = Some (Inr s')"
    with l have "lookupInvariants s'" by (rule addItem_keeps_invariants)
    then show ?A by (rule after)
  next
    assume "removeItem s k = Some s'"
    with l have "lookupInvariants s'" by (rule removeItem_keeps_invariants)
    then show ?A by (rule after)
  next
    assume r: "updateItem s u = Some (Inr s')" and m: ?M
    from l r m have "lookupInvariants s'" by (blast intro: updateItem_keeps_invariants)
    then show ?A by (rule after)
  qed
  have b: "updateItem s u = Some (Inr s') \<and> ?M \<longrightarrow>
            getItem s' (item_id u) = Some u \<and>
            (\<forall>p. parent u = Some p \<longrightarrow> u \<in> set (getChildren s' p))"
  proof (intro impI, elim conjE)
    assume r: "updateItem s u = Some (Inr s')" and m: ?M
    from l r m have l': "lookupInvariants s'" by (blast intro: updateItem_keeps_invariants)
    from updateItem_returned [OF r] have g: "getItem s' (item_id u) = Some u"
      by (auto simp: getItem_def update_conv')
    with lookupInvariantsD(7) [OF l']
    show "getItem s' (item_id u) = Some u \<and>
            (\<forall>p. parent u = Some p \<longrightarrow> u \<in> set (getChildren s' p))" by blast
  qed
  have c: "updateItem s u = Some (Inr s') \<and> getItem s (item_id u) = Some e \<and>
          parent e = parent u \<and> parent u = Some p \<and> e \<noteq> u \<longrightarrow>
            e \<in> set (getChildren s' p) \<and> getItem s' (item_id e) = Some u \<and> \<not> invariants s'"
  proof (intro impI, elim conjE)
    assume r: "updateItem s u = Some (Inr s')" and e: "getItem s (item_id u) = Some e"
      and same: "parent e = parent u" "parent u = Some p" and ne: "e \<noteq> u"
    from same have pe: "parent e = Some p" by simp
    from updateItem_stale_child [OF l r e pe same(2)]
    have st: "e \<in> set (getChildren s' p)" "getItem s' (item_id e) = Some u" by simp_all
    have "\<not> invariants s'"
    proof
      assume "invariants s'"
      then have "indexInverse s'" by (simp add: invariants_def)
      from listed_is_stored [OF this st(1)] st(2) ne show False by simp
    qed
    with st show "e \<in> set (getChildren s' p) \<and> getItem s' (item_id e) = Some u \<and> \<not> invariants s'"
      by simp
  qed
  from a b c show ?thesis by (intro conjI)
qed

text \<open>
  On the fixture: 9 is added under 3, A is removed with its subtree, 3 is moved from 1 to A,
  and the root 1 is renamed.
\<close>

theorem mutations_keep_invariants_fixture:
  "invariants fixture \<and> childListsDistinct fixture \<and>
   (\<exists>s'. addItem fixture (mk (Num 9) (Some (Num 3)) ''Item 9'') = Some (Inr s') \<and>
         invariants s' \<and> childListsDistinct s' \<and>
         (\<forall>X p. X \<in> set (getChildren s' p) \<longleftrightarrow>
                  getItem s' (item_id X) = Some X \<and> parent X = Some p)) \<and>
   (\<exists>s'. removeItem fixture A = Some s' \<and> invariants s' \<and> childListsDistinct s') \<and>
   (\<exists>s'. updateItem fixture (mk (Num 3) (Some A) ''Item 3 moved'') = Some (Inr s') \<and>
         invariants s' \<and> childListsDistinct s' \<and>
         mk (Num 3) (Some A) ''Item 3 moved'' \<in> set (getChildren s' A)) \<and>
   (\<exists>s'. updateItem fixture (mk (Num 1) None ''Item 1 updated'') = Some (Inr s') \<and>
         invariants s' \<and> childListsDistinct s' \<and>
         getItem s' (Num 1) = Some (mk (Num 1) None ''Item 1 updated''))"
proof -
  note t = mutations_keep_invariants [OF fixture_invariants fixture_childListsDistinct]
  let ?x = "mk (Num 9) (Some (Num 3)) ''Item 9''" and ?u = "mk (Num 3) (Some A) ''Item 3 moved''"
  let ?r = "mk (Num 1) None ''Item 1 updated''"
  have "\<exists>s'. addItem fixture ?x = Some (Inr s')" by (simp add: eval_simps)
  then obtain s1 where s1: "addItem fixture ?x = Some (Inr s1)" by blast
  from t [where x = ?x and s' = s1] s1
  have 1: "\<exists>s'. addItem fixture ?x = Some (Inr s') \<and>
         invariants s' \<and> childListsDistinct s' \<and>
         (\<forall>X p. X \<in> set (getChildren s' p) \<longleftrightarrow>
                  getItem s' (item_id X) = Some X \<and> parent X = Some p)"
    by blast
  have "\<exists>s'. removeItem fixture A = Some s'" by (simp add: eval_simps Let_def)
  then obtain s2 where s2: "removeItem fixture A = Some s2" by blast
  from t [where k = A and s' = s2] s2
  have 2: "\<exists>s'. removeItem fixture A = Some s' \<and> invariants s' \<and> childListsDistinct s'"
    by blast
  have "\<exists>s'. updateItem fixture ?u = Some (Inr s')" by (simp add: eval_simps)
  then obtain s3 where s3: "updateItem fixture ?u = Some (Inr s3)" by blast
  have m: "\<forall>e. getItem fixture (item_id ?u) = Some e \<longrightarrow>
               parent e \<noteq> parent ?u \<or> parent ?u = None \<or> e = ?u"
    by (simp add: getItem_def fixture_unfold mk_def A_not_Num)
  have p: "parent ?u = Some A" by (simp add: mk_def)
  from t [where u = ?u and s' = s3] s3 m p
  have 3: "\<exists>s'. updateItem fixture ?u = Some (Inr s') \<and>
         invariants s' \<and> childListsDistinct s' \<and> ?u \<in> set (getChildren s' A)"
    by blast
  have "\<exists>s'. updateItem fixture ?r = Some (Inr s')" by (simp add: eval_simps)
  then obtain s4 where s4: "updateItem fixture ?r = Some (Inr s4)" by blast
  have n: "\<forall>e. getItem fixture (item_id ?r) = Some e \<longrightarrow>
               parent e \<noteq> parent ?r \<or> parent ?r = None \<or> e = ?r"
    by (simp add: mk_def)
  have i: "item_id ?r = Num 1" by (simp add: mk_def)
  from t [where u = ?r and s' = s4] s4 n i
  have 4: "\<exists>s'. updateItem fixture ?r = Some (Inr s') \<and>
         invariants s' \<and> childListsDistinct s' \<and> getItem s' (Num 1) = Some ?r"
    by auto
  from fixture_invariants fixture_childListsDistinct 1 2 3 4 show ?thesis by (intro conjI)
qed

text \<open>
  The child lists must name no identifier twice for this.  \<open>twiceListedStore\<close> satisfies the
  four invariants, and its child list of 1 holds the stored item 2 twice.  Removing 2 takes it
  out of the primary index and takes one of the two entries out of the child list: the other
  entry stays, for an item that is no longer stored.
\<close>

theorem removeItem_leaves_second_entry:
  "invariants twiceListedStore \<and>
   map_option (\<lambda>s'. (getItem s' (Num 2), getChildren s' (Num 1)))
     (removeItem twiceListedStore (Num 2))
   = Some (None, [mk (Num 2) (Some (Num 1)) ''c''])"
proof -
  have "map_option (\<lambda>s'. (getItem s' (Num 2), getChildren s' (Num 1)))
     (removeItem twiceListedStore (Num 2))
   = Some (None, [mk (Num 2) (Some (Num 1)) ''c''])"
    by (simp add: op_defs twiceListedStore_unfold mk_def Let_def bfsLoop_Nil bfsLoop_Cons)
  with twiceListedStore_invariants show ?thesis by simp
qed

text \<open>
  Claim C1, at the fixture.  The fixture satisfies the four invariants.  \<open>updateItem\<close> touches
  the secondary index only when the parent changes: renaming item 3 under its unchanged
  parent 1 returns normally, stores the new record in the primary index and leaves the old
  record in the child list of 1.  The record found in the parent's child list is not the
  stored one.  The branch for a changed parent does push the updated record onto the new
  parent's list.
\<close>

theorem updateItem_same_parent_stale_child:
  "invariants fixture \<and>
   map_option (map_sum id (\<lambda>s'. (getItem s' (Num 3), getChildren s' (Num 1))))
     (updateItem fixture (mk (Num 3) (Some (Num 1)) ''Renamed'')) =
   Some (Inr (Some (mk (Num 3) (Some (Num 1)) ''Renamed''),
              [mk A (Some (Num 1)) ''Item 2'', mk (Num 3) (Some (Num 1)) ''Item 3'']))"
proof -
  have "map_option (map_sum id (\<lambda>s'. (getItem s' (Num 3), getChildren s' (Num 1))))
     (updateItem fixture (mk (Num 3) (Some (Num 1)) ''Renamed'')) =
   Some (Inr (Some (mk (Num 3) (Some (Num 1)) ''Renamed''),
              [mk A (Some (Num 1)) ''Item 2'', mk (Num 3) (Some (Num 1)) ''Item 3'']))"
    by (simp add: eval_simps)
  with fixture_invariants show ?thesis by (rule conjI)
qed

end
